theory Spec2Isabelle
  imports Complex_Main
begin

section \<open>Library values the script computes with\<close>

text \<open>
  The script \<^verbatim>\<open>github_contribution.py\<close> uses three pieces of the Python standard
  library whose results decide what it produces: \<^verbatim>\<open>datetime\<close>/\<^verbatim>\<open>timedelta\<close>
  arithmetic, \<^verbatim>\<open>random.randint\<close> and string slicing with \<^verbatim>\<open>str.rfind\<close>. They are
  modelled here the way the reference implementation of the library computes them; every
  exception they can raise is a value of \<open>error\<close>.
\<close>

datatype error = OverflowError | ValueError | FileExistsError | FileNotFoundError

subsection \<open>datetime and timedelta\<close>

text \<open>
  A naive \<^verbatim>\<open>datetime\<close> is a calendar day and a clock time. The calendar day is kept as its
  proleptic Gregorian ordinal (what \<^verbatim>\<open>toordinal()\<close> returns: 1 is 0001-01-01 and
  3652059 is 9999-12-31), which is what the library itself uses for day arithmetic and for
  \<^verbatim>\<open>weekday()\<close>.
\<close>

record datetime =
  ordinal :: int
  hour :: int
  minute :: int
  second :: int
  microsecond :: int

definition MAXORDINAL :: int where
  "MAXORDINAL = 3652059"

definition valid_datetime :: "datetime \<Rightarrow> bool" where
  "valid_datetime t \<longleftrightarrow>
     1 \<le> ordinal t \<and> ordinal t \<le> MAXORDINAL \<and>
     0 \<le> hour t \<and> hour t < 24 \<and>
     0 \<le> minute t \<and> minute t < 60 \<and>
     0 \<le> second t \<and> second t < 60 \<and>
     0 \<le> microsecond t \<and> microsecond t < 1000000"

text \<open>A \<^verbatim>\<open>timedelta\<close> in its normal form: days, seconds in [0, 86400), microseconds.\<close>

record timedelta =
  days :: int
  seconds :: int
  microseconds :: int

text \<open>\<^verbatim>\<open>timedelta(n)\<close>: a whole number of days; more than 999999999 days either way raises.\<close>

definition timedelta_days :: "int \<Rightarrow> error + timedelta" where
  "timedelta_days n =
     (if \<bar>n\<bar> > 999999999 then Inl OverflowError
      else Inr \<lparr>days = n, seconds = 0, microseconds = 0\<rparr>)"

text \<open>\<^verbatim>\<open>timedelta(minutes=m)\<close>: the minutes are turned into seconds and normalised.\<close>

definition timedelta_minutes :: "int \<Rightarrow> error + timedelta" where
  "timedelta_minutes m =
     (let s = m * 60; d = s div 86400 in
      if \<bar>d\<bar> > 999999999 then Inl OverflowError
      else Inr \<lparr>days = d, seconds = s mod 86400, microseconds = 0\<rparr>)"

text \<open>\<^verbatim>\<open>-td\<close>\<close>

definition timedelta_neg :: "timedelta \<Rightarrow> timedelta" where
  "timedelta_neg d =
     (let us = - microseconds d;
          s = - seconds d + us div 1000000
      in \<lparr>days = - days d + s div 86400, seconds = s mod 86400,
          microseconds = us mod 1000000\<rparr>)"

text \<open>
  \<^verbatim>\<open>dt + td\<close>: the library turns the datetime into a duration since day 0, adds, carries
  microseconds into seconds and seconds into days, and raises \<^verbatim>\<open>OverflowError\<close> when the
  day leaves [1, 3652059]. (A sum of more than 999999999 days raises the same error and is
  outside that range as well.)
\<close>

definition dt_add :: "datetime \<Rightarrow> timedelta \<Rightarrow> error + datetime" where
  "dt_add t d =
     (let us = microsecond t + microseconds d;
          secs = hour t * 3600 + minute t * 60 + second t + seconds d + us div 1000000;
          dys = ordinal t + days d + secs div 86400;
          s = secs mod 86400;
          r = s mod 3600
      in if 0 < dys \<and> dys \<le> MAXORDINAL
         then Inr \<lparr>ordinal = dys, hour = s div 3600, minute = r div 60, second = r mod 60,
                   microsecond = us mod 1000000\<rparr>
         else Inl OverflowError)"

text \<open>\<^verbatim>\<open>dt - td\<close> is \<^verbatim>\<open>dt + (-td)\<close>.\<close>

definition dt_sub :: "datetime \<Rightarrow> timedelta \<Rightarrow> error + datetime" where
  "dt_sub t d = dt_add t (timedelta_neg d)"

text \<open>\<^verbatim>\<open>dt.replace(hour=h, minute=m)\<close>: only the two named fields change.\<close>

definition replace_hour_minute :: "datetime \<Rightarrow> int \<Rightarrow> int \<Rightarrow> datetime" where
  "replace_hour_minute t h m = t\<lparr>hour := h, minute := m\<rparr>"

text \<open>\<^verbatim>\<open>dt.weekday()\<close>: Monday is 0, Sunday is 6.\<close>

definition weekday :: "datetime \<Rightarrow> int" where
  "weekday t = (ordinal t + 6) mod 7"

text \<open>
  \<^verbatim>\<open>a < b\<close> on datetimes compares year, month, day, hour, minute, second, microsecond
  lexicographically; year, month and day compare as the ordinal does.
\<close>

definition dt_less :: "datetime \<Rightarrow> datetime \<Rightarrow> bool" where
  "dt_less a b \<longleftrightarrow>
     ordinal a < ordinal b \<or> (ordinal a = ordinal b \<and>
      (hour a < hour b \<or> (hour a = hour b \<and>
       (minute a < minute b \<or> (minute a = minute b \<and>
        (second a < second b \<or> (second a = second b \<and>
         microsecond a < microsecond b)))))))"

definition dt_le :: "datetime \<Rightarrow> datetime \<Rightarrow> bool" where
  "dt_le a b \<longleftrightarrow> dt_less a b \<or> a = b"

subsection \<open>The random source\<close>

text \<open>
  \<^verbatim>\<open>randint(a, b)\<close> returns an integer N with a \<le> N \<le> b, taken from the process-wide
  generator, and raises \<^verbatim>\<open>ValueError\<close> on an empty range. The generator is its sequence
  of raw outputs together with the number of outputs already consumed; a raw output r
  gives \<open>a + r mod (b - a + 1)\<close>, so each value of the range comes from exactly one residue.
\<close>

type_synonym rng = "(nat \<Rightarrow> nat) \<times> nat"

definition randint_value :: "int \<Rightarrow> int \<Rightarrow> nat \<Rightarrow> int" where
  "randint_value a b r = a + int (r mod nat (b - a + 1))"

definition randint :: "int \<Rightarrow> int \<Rightarrow> rng \<Rightarrow> error + (int \<times> rng)" where
  "randint a b g =
     (if b < a then Inl ValueError
      else Inr (randint_value a b (fst g (snd g)), (fst g, Suc (snd g))))"

text \<open>The generator whose next raw output is \<open>r\<close> and which continues as \<open>g\<close>.\<close>

definition next_raw :: "nat \<Rightarrow> rng \<Rightarrow> rng" where
  "next_raw r g = ((fst g)(snd g := r), snd g)"

subsection \<open>Ranges\<close>

text \<open>\<^verbatim>\<open>range(k)\<close>: 0, 1, ..., k - 1; empty when k \<le> 0.\<close>

definition range_py :: "int \<Rightarrow> int list" where
  "range_py k = [0..k - 1]"

subsection \<open>Strings: \<^verbatim>\<open>rfind\<close>, slices and \<^verbatim>\<open>strftime\<close>\<close>

text \<open>
  \<^verbatim>\<open>s.rfind(c)\<close> for a one-character \<open>c\<close>: the highest index at which \<open>c\<close> occurs,
  or -1 when it does not occur.
\<close>

fun rfind :: "'a list \<Rightarrow> 'a \<Rightarrow> int" where
  "rfind [] c = - 1"
| "rfind (x # xs) c =
     (let r = rfind xs c in if 0 \<le> r then r + 1 else if x = c then 0 else - 1)"

text \<open>
  \<^verbatim>\<open>s[i:j]\<close>: a negative index counts from the end, both indices are clamped to
  [0, len(s)], and the slice is empty when the end is not after the start.
\<close>

definition slice_index :: "int \<Rightarrow> int \<Rightarrow> int" where
  "slice_index n i = (if i < 0 then max 0 (n + i) else min i n)"

definition py_slice :: "'a list \<Rightarrow> int \<Rightarrow> int \<Rightarrow> 'a list" where
  "py_slice s i j =
     (let n = int (length s); lo = slice_index n i; hi = slice_index n j
      in take (nat (hi - lo)) (drop (nat lo) s))"

text \<open>Decimal digits of a natural number, and zero padding to a width (\<^verbatim>\<open>%02d\<close>).\<close>

definition digit_char :: "nat \<Rightarrow> char" where
  "digit_char d = ''0123456789'' ! (d mod 10)"

fun decimal :: "nat \<Rightarrow> string" where
  "decimal n = (if n < 10 then [digit_char n] else decimal (n div 10) @ [digit_char (n mod 10)])"

declare decimal.simps [simp del]

definition zero_pad :: "nat \<Rightarrow> int \<Rightarrow> string" where
  "zero_pad w n = (let s = decimal (nat n) in replicate (w - length s) CHR ''0'' @ s)"

text \<open>
  Year, month and day of an ordinal, as the library's \<^verbatim>\<open>_ord2ymd\<close> computes them: whole
  400-year, 100-year, 4-year and 1-year cycles are split off, then (\<open>month_day\<close>, the
  second half of that function) the month is estimated from the day of the year and
  corrected with the table of days before each month.
\<close>

definition days_in_month :: "int list" where
  "days_in_month = [- 1, 31, 28, 31, 30, 31, 30, 31, 31, 30, 31, 30, 31]"

definition days_before_month :: "int list" where
  "days_before_month = [- 1, 0, 31, 59, 90, 120, 151, 181, 212, 243, 273, 304, 334]"

definition month_day :: "int \<Rightarrow> bool \<Rightarrow> int \<times> int" where
  "month_day n leapyear =
     (let month = (n + 50) div 32;
          preceding = days_before_month ! nat month +
                      (if month > 2 \<and> leapyear then 1 else 0)
      in if preceding > n
         then (let month' = month - 1;
                   preceding' = preceding - (days_in_month ! nat month' +
                                 (if month' = 2 \<and> leapyear then 1 else 0))
               in (month', n - preceding' + 1))
         else (month, n - preceding + 1))"

definition ord2ymd :: "int \<Rightarrow> int \<times> int \<times> int" where
  "ord2ymd n0 =
     (let n = n0 - 1;
          n400 = n div 146097; n = n mod 146097;
          n100 = n div 36524; n = n mod 36524;
          n4 = n div 1461; n = n mod 1461;
          n1 = n div 365; n = n mod 365;
          year = n400 * 400 + 1 + n100 * 100 + n4 * 4 + n1
      in if n1 = 4 \<or> n100 = 4 then (year - 1, 12, 31)
         else
           (let leapyear = (n1 = 3 \<and> (n4 \<noteq> 24 \<or> n100 = 3))
            in (year, month_day n leapyear)))"

text \<open>
  The \<^verbatim>\<open>strftime\<close> directives the script uses: \<^verbatim>\<open>%Y\<close> is the year in decimal as the
  C library prints it (no padding, so fewer than four digits before the year 1000),
  \<^verbatim>\<open>%m %d %H %M %S\<close> are zero-padded to two digits.
\<close>

definition fmt_Y :: "datetime \<Rightarrow> string" where
  "fmt_Y t = decimal (nat (fst (ord2ymd (ordinal t))))"

definition fmt_m :: "datetime \<Rightarrow> string" where
  "fmt_m t = zero_pad 2 (fst (snd (ord2ymd (ordinal t))))"

definition fmt_d :: "datetime \<Rightarrow> string" where
  "fmt_d t = zero_pad 2 (snd (snd (ord2ymd (ordinal t))))"

definition fmt_H :: "datetime \<Rightarrow> string" where
  "fmt_H t = zero_pad 2 (hour t)"

definition fmt_M :: "datetime \<Rightarrow> string" where
  "fmt_M t = zero_pad 2 (minute t)"

definition fmt_S :: "datetime \<Rightarrow> string" where
  "fmt_S t = zero_pad 2 (second t)"

section \<open>The command-line arguments and the synthesizer\<close>

record args =
  no_weekends :: bool
  max_commits :: int
  frequency :: int
  repository :: "string option"
  user_name :: "string option"
  user_email :: "string option"
  days_before :: int
  days_after :: int

text \<open>\<^verbatim>\<open>_contributions_per_day\<close>: \<^verbatim>\<open>randint(1, max(1, min(20, max_commits)))\<close>.\<close>

definition contributions_per_day :: "args \<Rightarrow> rng \<Rightarrow> error + (int \<times> rng)" where
  "contributions_per_day a g = randint 1 (max 1 (min 20 (max_commits a))) g"

text \<open>
  The inner loop of \<^verbatim>\<open>_generate_commit_dates\<close>: one \<^verbatim>\<open>day + timedelta(minutes=m)\<close>
  appended to \<^verbatim>\<open>commit_dates\<close> for each m of the range.
\<close>

fun append_commit_times :: "datetime \<Rightarrow> int list \<Rightarrow> datetime list \<Rightarrow> error + datetime list" where
  "append_commit_times day [] commit_dates = Inr commit_dates"
| "append_commit_times day (m # ms) commit_dates =
     (case timedelta_minutes m of
        Inl e \<Rightarrow> Inl e
      | Inr td \<Rightarrow>
         (case dt_add day td of
            Inl e \<Rightarrow> Inl e
          | Inr commit_time \<Rightarrow> append_commit_times day ms (commit_dates @ [commit_time])))"

text \<open>
  The body of the outer loop for one candidate day. The condition is
  \<^verbatim>\<open>(not no_weekends or day.weekday() < 5) and randint(0, 100) < frequency\<close>: the
  \<^verbatim>\<open>and\<close> short-circuits, so a skipped weekend day draws nothing. For an included day
  \<^verbatim>\<open>range(randint(1, self._contributions_per_day()))\<close> evaluates the argument
  \<^verbatim>\<open>_contributions_per_day()\<close> first and then the outer \<^verbatim>\<open>randint\<close>.
\<close>

definition day_body :: "args \<Rightarrow> datetime \<Rightarrow> rng \<Rightarrow> datetime list \<Rightarrow> error + (datetime list \<times> rng)" where
  "day_body a day g commit_dates =
     (if \<not> no_weekends a \<or> weekday day < 5 then
        (case randint 0 100 g of
           Inl e \<Rightarrow> Inl e
         | Inr (r, g1) \<Rightarrow>
            if r < frequency a then
              (case contributions_per_day a g1 of
                 Inl e \<Rightarrow> Inl e
               | Inr (b, g2) \<Rightarrow>
                  (case randint 1 b g2 of
                     Inl e \<Rightarrow> Inl e
                   | Inr (c, g3) \<Rightarrow>
                      (case append_commit_times day (range_py c) commit_dates of
                         Inl e \<Rightarrow> Inl e
                       | Inr cds \<Rightarrow> Inr (cds, g3))))
            else Inr (commit_dates, g1))
      else Inr (commit_dates, g))"

text \<open>
  The outer loop: \<^verbatim>\<open>for day in (start_date + timedelta(n) for n in range(...))\<close>. The
  generator computes each day when the loop asks for it, so an overflow on a later day
  raises after the earlier days have been handled, and the whole call raises.
\<close>

fun days_loop :: "args \<Rightarrow> datetime \<Rightarrow> int list \<Rightarrow> rng \<Rightarrow> datetime list \<Rightarrow> error + (datetime list \<times> rng)" where
  "days_loop a start_date [] g commit_dates = Inr (commit_dates, g)"
| "days_loop a start_date (n # ns) g commit_dates =
     (case timedelta_days n of
        Inl e \<Rightarrow> Inl e
      | Inr td \<Rightarrow>
         (case dt_add start_date td of
            Inl e \<Rightarrow> Inl e
          | Inr day \<Rightarrow>
             (case day_body a day g commit_dates of
                Inl e \<Rightarrow> Inl e
              | Inr (cds, g') \<Rightarrow> days_loop a start_date ns g' cds)))"

text \<open>The anchor: \<^verbatim>\<open>self.curr_date.replace(hour=20, minute=0)\<close>.\<close>

definition anchor :: "datetime \<Rightarrow> datetime" where
  "anchor curr_date = replace_hour_minute curr_date 20 0"

text \<open>\<^verbatim>\<open>_generate_commit_dates\<close>, with the generator state it leaves behind.\<close>

definition generate_commit_dates_rng :: "args \<Rightarrow> datetime \<Rightarrow> rng \<Rightarrow> error + (datetime list \<times> rng)" where
  "generate_commit_dates_rng a curr_date g =
     (case timedelta_days (days_before a) of
        Inl e \<Rightarrow> Inl e
      | Inr td \<Rightarrow>
         (case dt_sub (anchor curr_date) td of
            Inl e \<Rightarrow> Inl e
          | Inr start_date \<Rightarrow>
              days_loop a start_date (range_py (days_before a + days_after a)) g []))"

definition generate_commit_dates :: "args \<Rightarrow> datetime \<Rightarrow> rng \<Rightarrow> error + datetime list" where
  "generate_commit_dates a curr_date g = map_sum id fst (generate_commit_dates_rng a curr_date g)"

section \<open>The repository driver\<close>

text \<open>\<^verbatim>\<open>_determine_directory\<close>. An absent option is \<open>None\<close>; \<^verbatim>\<open>if self.args.repository\<close>
  is false for \<open>None\<close> and for the empty string.\<close>

definition determine_directory :: "args \<Rightarrow> datetime \<Rightarrow> string" where
  "determine_directory a curr_date =
     (case repository a of
        None \<Rightarrow> ''repository-'' @ fmt_Y curr_date @ ''-'' @ fmt_m curr_date @ ''-'' @
                 fmt_d curr_date @ ''-'' @ fmt_H curr_date @ ''-'' @ fmt_M curr_date @ ''-'' @
                 fmt_S curr_date
      | Some url \<Rightarrow>
          if url = [] then
            ''repository-'' @ fmt_Y curr_date @ ''-'' @ fmt_m curr_date @ ''-'' @
            fmt_d curr_date @ ''-'' @ fmt_H curr_date @ ''-'' @ fmt_M curr_date @ ''-'' @
            fmt_S curr_date
          else
            (let start = rfind url CHR ''/'' + 1;
                 end = rfind url CHR ''.''
             in py_slice url start end))"

text \<open>The object \<^verbatim>\<open>GitRepository.__init__\<close> builds; the constructor raises when the
  synthesizer does.\<close>

record git_repository =
  repo_args :: args
  curr_date :: datetime
  directory :: string
  commit_dates :: "datetime list"

definition git_repository_init :: "args \<Rightarrow> datetime \<Rightarrow> rng \<Rightarrow> error + git_repository" where
  "git_repository_init a now g =
     (let dir = determine_directory a now in
      case generate_commit_dates a now g of
        Inl e \<Rightarrow> Inl e
      | Inr ds \<Rightarrow> Inr \<lparr>repo_args = a, curr_date = now, directory = dir, commit_dates = ds\<rparr>)"

text \<open>
  What the driver acts on: the paths that exist where the script starts, the directories
  entered with \<^verbatim>\<open>os.chdir\<close>, the text appended to \<^verbatim>\<open>README.md\<close>, the external commands
  run (their argument vectors, in order; their exit status is never read) and the lines
  printed. A step that raises returns the error with the world as it was at that moment.
\<close>

record world =
  existing :: "string set"
  entered :: "string list"
  readme :: string
  commands :: "string list list"
  printed :: "string list"

definition path_exists :: "world \<Rightarrow> string \<Rightarrow> bool" where
  "path_exists w p \<longleftrightarrow> p \<noteq> [] \<and> p \<in> existing w"

text \<open>\<^verbatim>\<open>os.mkdir(p)\<close>: the empty path is not found, an existing path is refused.\<close>

definition mkdir :: "string \<Rightarrow> world \<Rightarrow> (error \<times> world) + world" where
  "mkdir p w =
     (if p = [] then Inl (FileNotFoundError, w)
      else if p \<in> existing w then Inl (FileExistsError, w)
      else Inr (w\<lparr>existing := insert p (existing w)\<rparr>))"

definition chdir :: "string \<Rightarrow> world \<Rightarrow> world" where
  "chdir p w = w\<lparr>entered := entered w @ [p]\<rparr>"

text \<open>\<^verbatim>\<open>_run_command\<close>: \<^verbatim>\<open>Popen(commands).wait()\<close>, the result discarded.\<close>

definition run_command :: "string list \<Rightarrow> world \<Rightarrow> world" where
  "run_command cmd w = w\<lparr>commands := commands w @ [cmd]\<rparr>"

definition create_and_initialize_repository :: "git_repository \<Rightarrow> world \<Rightarrow> (error \<times> world) + world" where
  "create_and_initialize_repository r w =
     (case mkdir (directory r) w of
        Inl ew \<Rightarrow> Inl ew
      | Inr w1 \<Rightarrow>
         (let w2 = chdir (directory r) w1;
              w3 = run_command [''git'', ''init'', ''-b'', ''main''] w2;
              w4 = (case user_name (repo_args r) of
                      None \<Rightarrow> w3
                    | Some n \<Rightarrow> if n = [] then w3
                                else run_command [''git'', ''config'', ''user.name'', n] w3);
              w5 = (case user_email (repo_args r) of
                      None \<Rightarrow> w4
                    | Some e \<Rightarrow> if e = [] then w4
                                else run_command [''git'', ''config'', ''user.email'', e] w4)
          in Inr w5))"

text \<open>\<^verbatim>\<open>_generate_commit_message\<close>: \<^verbatim>\<open>date.strftime("Contribution: %Y-%m-%d %H:%M")\<close>.\<close>

definition generate_commit_message :: "datetime \<Rightarrow> string" where
  "generate_commit_message date =
     ''Contribution: '' @ fmt_Y date @ ''-'' @ fmt_m date @ ''-'' @ fmt_d date @ '' '' @
     fmt_H date @ '':'' @ fmt_M date"

text \<open>\<^verbatim>\<open>_contribute\<close>: the line is appended to the file, then \<^verbatim>\<open>git add\<close> and
  \<^verbatim>\<open>git commit\<close> run; the date argument carries literal double quotes.\<close>

definition contribute :: "datetime \<Rightarrow> world \<Rightarrow> world" where
  "contribute date w =
     (let w1 = w\<lparr>readme := readme w @ generate_commit_message date @ [CHR 0x0A, CHR 0x0A]\<rparr>;
          w2 = run_command [''git'', ''add'', ''.''] w1
      in run_command
           [''git'', ''commit'', ''-m'', generate_commit_message date, ''--date'',
            [CHR 0x22] @ fmt_Y date @ ''-'' @ fmt_m date @ ''-'' @ fmt_d date @ '' '' @
            fmt_H date @ '':'' @ fmt_M date @ '':'' @ fmt_S date @ [CHR 0x22]] w2)"

definition setup_remote_repository :: "string \<Rightarrow> world \<Rightarrow> world" where
  "setup_remote_repository url w =
     run_command [''git'', ''push'', ''-u'', ''origin'', ''main'']
       (run_command [''git'', ''branch'', ''-M'', ''main'']
         (run_command [''git'', ''remote'', ''add'', ''origin'', url] w))"

text \<open>\<^verbatim>\<open>setup\<close>: create and initialize, one contribution per commit date in list order,
  the remote when a URL was given, then the success notice.\<close>

definition setup_repository :: "git_repository \<Rightarrow> world \<Rightarrow> (error \<times> world) + world" where
  "setup_repository r w =
     (case create_and_initialize_repository r w of
        Inl ew \<Rightarrow> Inl ew
      | Inr w1 \<Rightarrow>
         (let w2 = fold contribute (commit_dates r) w1;
              w3 = (case repository (repo_args r) of
                      None \<Rightarrow> w2
                    | Some url \<Rightarrow> if url = [] then w2 else setup_remote_repository url w2)
          in Inr (w3\<lparr>printed := printed w3 @
                    [CHR 0x0A # ''Repository generation completed successfully!'']\<rparr>)))"

text \<open>The script itself: build the object, then \<^verbatim>\<open>repo.setup()\<close>; nothing catches
  an exception of either.\<close>

definition script_main :: "args \<Rightarrow> datetime \<Rightarrow> rng \<Rightarrow> world \<Rightarrow> (error \<times> world) + world" where
  "script_main a now g w =
     (case git_repository_init a now g of
        Inl e \<Rightarrow> Inl (e, w)
      | Inr repo \<Rightarrow> setup_repository repo w)"

section \<open>Notions used to state the properties\<close>

text \<open>
  A datetime at 20:00 with any seconds and microseconds of a clock; the ordinal is left
  free, so that the ends of a window need not be representable dates.
\<close>

definition evening :: "datetime \<Rightarrow> bool" where
  "evening t \<longleftrightarrow> hour t = 20 \<and> minute t = 0 \<and> 0 \<le> second t \<and> second t < 60 \<and>
     0 \<le> microsecond t \<and> microsecond t < 1000000"

text \<open>The same clock time \<open>n\<close> calendar days later, and the same day at minute \<open>m\<close>.\<close>

definition on_day :: "datetime \<Rightarrow> int \<Rightarrow> datetime" where
  "on_day t n = t\<lparr>ordinal := ordinal t + n\<rparr>"

definition at_minute :: "datetime \<Rightarrow> int \<Rightarrow> datetime" where
  "at_minute day m = day\<lparr>minute := m\<rparr>"

text \<open>
  The three values an included day draws, read off the generator \<open>g\<close> the day starts
  with: the inclusion draw from [0, 100], the bound that \<^verbatim>\<open>_contributions_per_day\<close>
  returns, and the count drawn from [1, bound]. Each uses its own raw output.
\<close>

definition inclusion_draw :: "rng \<Rightarrow> int" where
  "inclusion_draw g = randint_value 0 100 (fst g (snd g))"

definition bound_draw :: "args \<Rightarrow> rng \<Rightarrow> int" where
  "bound_draw a g = randint_value 1 (max 1 (min 20 (max_commits a))) (fst g (Suc (snd g)))"

definition count_draw :: "args \<Rightarrow> rng \<Rightarrow> int" where
  "count_draw a g = randint_value 1 (bound_draw a g) (fst g (Suc (Suc (snd g))))"

text \<open>The dates one candidate day adds to an empty schedule (none when the day raises).\<close>

definition day_dates :: "args \<Rightarrow> datetime \<Rightarrow> rng \<Rightarrow> datetime list" where
  "day_dates a day g = (case day_body a day g [] of Inl e \<Rightarrow> [] | Inr (ds, g') \<Rightarrow> ds)"

text \<open>
  The candidate days of a run, counted from 0: day \<open>k\<close> is \<open>start_date + timedelta(k)\<close>,
  the anchor moved by \<open>k - days_before\<close> days.
\<close>

definition candidate_day :: "args \<Rightarrow> datetime \<Rightarrow> int \<Rightarrow> datetime" where
  "candidate_day a now k = on_day (anchor now) (k - days_before a)"

text \<open>
  The generator as one candidate day leaves it, and the generator the loop holds when it
  reaches candidate day \<open>k\<close>: the one the run starts with, passed through the days
  before \<open>k\<close> in order.
\<close>

definition rng_after_day :: "args \<Rightarrow> datetime \<Rightarrow> rng \<Rightarrow> rng" where
  "rng_after_day a day g = (case day_body a day g [] of Inl e \<Rightarrow> g | Inr (ds, g') \<Rightarrow> g')"

definition rng_at_day :: "args \<Rightarrow> datetime \<Rightarrow> int \<Rightarrow> rng \<Rightarrow> rng" where
  "rng_at_day a now k g = fold (\<lambda>n. rng_after_day a (candidate_day a now n)) (range_py k) g"

text \<open>
  The commit dates of a schedule that fall on the calendar day with ordinal \<open>d\<close>, in
  schedule order.
\<close>

definition dates_on :: "datetime list \<Rightarrow> int \<Rightarrow> datetime list" where
  "dates_on dates d = filter (\<lambda>t. ordinal t = d) dates"

text \<open>
  The characters of a string at the indices \<open>i\<close>, ..., \<open>j - 1\<close>.
\<close>

definition between :: "'a list \<Rightarrow> int \<Rightarrow> int \<Rightarrow> 'a list" where
  "between s i j = map ((!) s) [nat i..<nat j]"

text \<open>The window lies inside the calendar: no day of it overflows the date range.\<close>

definition window_in_calendar :: "args \<Rightarrow> datetime \<Rightarrow> bool" where
  "window_in_calendar a now \<longleftrightarrow>
     0 < ordinal now - days_before a \<and> ordinal now - days_before a \<le> MAXORDINAL \<and>
     ordinal now + days_after a - 1 \<le> MAXORDINAL"

text \<open>A string matches a pattern when each \<open>#\<close> of the pattern stands over a decimal digit
  and every other character of the pattern over itself.\<close>

fun matches_pattern :: "string \<Rightarrow> string \<Rightarrow> bool" where
  "matches_pattern [] [] = True"
| "matches_pattern (p # ps) (c # cs) =
     ((if p = CHR ''#'' then c \<in> set ''0123456789'' else c = p) \<and> matches_pattern ps cs)"
| "matches_pattern _ _ = False"

text \<open>
  A concrete run used to exercise the theorems: Friday 2024-03-15 at 10:11:12.000013, a
  window of three days before and one after, and a generator whose first raw outputs are
  listed. The four dates are what the synthesizer returns on it.
\<close>

definition example_now :: datetime where
  "example_now = \<lparr>ordinal = 738960, hour = 10, minute = 11, second = 12, microsecond = 13\<rparr>"

definition example_args :: args where
  "example_args = \<lparr>no_weekends = True, max_commits = 3, frequency = 80,
     repository = Some ''https://example.com/foo/bar-project.git'',
     user_name = None, user_email = None, days_before = 3, days_after = 1\<rparr>"

definition example_raw :: "nat \<Rightarrow> nat" where
  "example_raw k = (if k < 10 then [5, 7, 8, 3, 1, 1, 99, 0, 0, 0] ! k else 0)"

definition example_rng :: rng where
  "example_rng = (example_raw, 0)"

definition example_dates :: "datetime list" where
  "example_dates =
     [\<lparr>ordinal = 738957, hour = 20, minute = 0, second = 12, microsecond = 13\<rparr>,
      \<lparr>ordinal = 738958, hour = 20, minute = 0, second = 12, microsecond = 13\<rparr>,
      \<lparr>ordinal = 738958, hour = 20, minute = 1, second = 12, microsecond = 13\<rparr>,
      \<lparr>ordinal = 738960, hour = 20, minute = 0, second = 12, microsecond = 13\<rparr>]"

text \<open>
  A second run over a weekend, from Thursday 2024-03-14 to Sunday 2024-03-17, with the
  same current time and generator; and a third run with frequency 100 whose first raw
  output is 100.
\<close>

definition weekend_args :: args where
  "weekend_args = example_args\<lparr>days_before := 1, days_after := 3\<rparr>"

definition weekend_dates :: "datetime list" where
  "weekend_dates =
     [\<lparr>ordinal = 738959, hour = 20, minute = 0, second = 12, microsecond = 13\<rparr>,
      \<lparr>ordinal = 738960, hour = 20, minute = 0, second = 12, microsecond = 13\<rparr>,
      \<lparr>ordinal = 738960, hour = 20, minute = 1, second = 12, microsecond = 13\<rparr>]"

definition full_args :: args where
  "full_args = example_args\<lparr>frequency := 100\<rparr>"

definition full_raw :: "nat \<Rightarrow> nat" where
  "full_raw k = (if k = 0 then 100 else 0)"

definition full_dates :: "datetime list" where
  "full_dates =
     [\<lparr>ordinal = 738958, hour = 20, minute = 0, second = 12, microsecond = 13\<rparr>,
      \<lparr>ordinal = 738959, hour = 20, minute = 0, second = 12, microsecond = 13\<rparr>,
      \<lparr>ordinal = 738960, hour = 20, minute = 0, second = 12, microsecond = 13\<rparr>]"

text \<open>The object built for that run, and a working directory in which the target directory
  already exists.\<close>

definition example_repo :: git_repository where
  "example_repo = \<lparr>repo_args = example_args, curr_date = example_now,
     directory = ''bar-project'', commit_dates = example_dates\<rparr>"

definition example_world :: world where
  "example_world = \<lparr>existing = {''bar-project'', ''notes.txt''}, entered = [], readme = [],
     commands = [], printed = []\<rparr>"

section \<open>Date arithmetic at 20:00\<close>

lemma divmod_pack:
  fixes a b q :: int
  assumes "0 \<le> b" and "b < q"
  shows "(a * q + b) div q = a" and "(a * q + b) mod q = b"
  using assms by simp_all

lemma dt_add_evening:
  assumes "evening t" and "0 \<le> m" and "m < 60"
  shows "dt_add t \<lparr>days = n, seconds = m * 60, microseconds = 0\<rparr> =
           (if 0 < ordinal t + n \<and> ordinal t + n \<le> MAXORDINAL
            then Inr (at_minute (on_day t n) m) else Inl OverflowError)"
proof -
  define r where "r = m * 60 + second t"
  define secs where "secs = 20 * 3600 + r"
  from assms(1) have b: "hour t = 20" "minute t = 0"
    "0 \<le> second t" "second t < 60" "0 \<le> microsecond t" "microsecond t < 1000000"
    by (simp_all add: evening_def)
  have us: "microsecond t div 1000000 = 0" "microsecond t mod 1000000 = microsecond t"
    using b by simp_all
  have r: "0 \<le> r" "r < 3600" using b assms(2,3) by (simp_all add: r_def)
  have secs: "0 \<le> secs" "secs < 86400" using r by (simp_all add: secs_def)
  have s1: "secs div 86400 = 0" "secs mod 86400 = secs" using secs by simp_all
  have s2: "secs div 3600 = 20" "secs mod 3600 = r"
    unfolding secs_def using r by (rule divmod_pack)+
  have s4: "r div 60 = m" "r mod 60 = second t"
    unfolding r_def using b(3,4) by (rule divmod_pack)+
  have e: "72000 + second t + m * 60 = secs"
    by (simp add: secs_def r_def)
  have "dt_add t \<lparr>days = n, seconds = m * 60, microseconds = 0\<rparr> =
          (if 0 < ordinal t + n \<and> ordinal t + n \<le> MAXORDINAL
           then Inr \<lparr>ordinal = ordinal t + n, hour = 20, minute = m, second = second t,
               microsecond = microsecond t\<rparr> else Inl OverflowError)"
    by (simp add: dt_add_def Let_def us e s1 s2 s4 b(1,2))
  also have "\<lparr>ordinal = ordinal t + n, hour = 20, minute = m, second = second t,
               microsecond = microsecond t\<rparr> = at_minute (on_day t n) m"
    by (rule datetime.equality) (simp_all add: b(1) at_minute_def on_day_def)
  finally show ?thesis .
qed

lemma on_day_0: "on_day t 0 = t"
  by (simp add: on_day_def)

lemma at_minute_same: "evening t \<Longrightarrow> at_minute t 0 = t"
  by (simp add: at_minute_def evening_def)

lemma evening_on_day: "evening t \<Longrightarrow> evening (on_day t n)"
  by (simp add: evening_def on_day_def)

lemma ordinal_on_day: "ordinal (on_day t n) = ordinal t + n"
  by (simp add: on_day_def)

lemma dt_add_days_evening:
  assumes "evening t"
  shows "dt_add t \<lparr>days = n, seconds = 0, microseconds = 0\<rparr> =
           (if 0 < ordinal t + n \<and> ordinal t + n \<le> MAXORDINAL
            then Inr (on_day t n) else Inl OverflowError)"
  using dt_add_evening [OF assms, of 0 n] assms
  by (simp add: at_minute_same evening_on_day)

lemma timedelta_minutes_small:
  assumes "0 \<le> m" and "m < 60"
  shows "timedelta_minutes m = Inr \<lparr>days = 0, seconds = m * 60, microseconds = 0\<rparr>"
proof -
  have "0 \<le> m * 60" "m * 60 < 86400" using assms by simp_all
  then have "(m * 60) div 86400 = 0" "(m * 60) mod 86400 = m * 60" by simp_all
  then show ?thesis by (simp add: timedelta_minutes_def Let_def)
qed

lemma append_commit_times_evening:
  assumes "evening day" and "0 < ordinal day" and "ordinal day \<le> MAXORDINAL"
    and "\<forall>m\<in>set ms. 0 \<le> m \<and> m < 60"
  shows "append_commit_times day ms acc = Inr (acc @ map (at_minute day) ms)"
  using assms(4)
proof (induction ms arbitrary: acc)
  case Nil
  then show ?case by simp
next
  case (Cons m ms)
  then have m: "0 \<le> m" "m < 60" by simp_all
  have "dt_add day \<lparr>days = 0, seconds = m * 60, microseconds = 0\<rparr> = Inr (at_minute day m)"
    using dt_add_evening [OF assms(1) m, of 0] assms(2,3) by (simp add: on_day_0)
  then show ?case
    using Cons by (simp add: timedelta_minutes_small [OF m])
qed

lemma set_range_py: "set (range_py k) = {0..k - 1}"
  by (simp add: range_py_def)

lemma length_range_py: "0 \<le> k \<Longrightarrow> int (length (range_py k)) = k"
  by (simp add: range_py_def)

lemma randint_ok:
  assumes "a \<le> b"
  shows "randint a b g = Inr (randint_value a b (fst g (snd g)), (fst g, Suc (snd g)))"
  using assms by (simp add: randint_def)

lemma randint_value_bounds:
  assumes "a \<le> b"
  shows "a \<le> randint_value a b r" and "randint_value a b r \<le> b"
proof -
  have "0 < nat (b - a + 1)" using assms by simp
  then have "r mod nat (b - a + 1) < nat (b - a + 1)" by (rule mod_less_divisor)
  then have "int (r mod nat (b - a + 1)) < b - a + 1" using assms by linarith
  then show "randint_value a b r \<le> b" by (simp add: randint_value_def)
  show "a \<le> randint_value a b r" by (simp add: randint_value_def)
qed

lemma inclusion_draw_bounds: "0 \<le> inclusion_draw g" "inclusion_draw g \<le> 100"
  unfolding inclusion_draw_def by (rule randint_value_bounds, simp)+

lemma bound_draw_bounds: "1 \<le> bound_draw a g" "bound_draw a g \<le> max 1 (min 20 (max_commits a))"
  unfolding bound_draw_def by (rule randint_value_bounds, simp)+

lemma count_draw_bounds: "1 \<le> count_draw a g" "count_draw a g \<le> bound_draw a g"
  unfolding count_draw_def by (rule randint_value_bounds, rule bound_draw_bounds)+

lemma count_draw_le_20: "count_draw a g \<le> 20"
  using count_draw_bounds(2) [of a g] bound_draw_bounds(2) [of a g] by simp

lemma day_body_eq:
  assumes "evening day" and "0 < ordinal day" and "ordinal day \<le> MAXORDINAL"
  shows "day_body a day g acc =
    (if \<not> no_weekends a \<or> weekday day < 5 then
       if inclusion_draw g < frequency a
       then Inr (acc @ map (at_minute day) (range_py (count_draw a g)),
                 (fst g, Suc (Suc (Suc (snd g)))))
       else Inr (acc, (fst g, Suc (snd g)))
     else Inr (acc, g))"
proof -
  have c: "\<forall>m\<in>set (range_py (count_draw a g)). 0 \<le> m \<and> m < 60"
    using count_draw_le_20 [of a g] by (auto simp: set_range_py)
  have r1: "randint 1 (max 1 (min 20 (max_commits a))) (fst g, Suc (snd g)) =
     Inr (bound_draw a g, (fst g, Suc (Suc (snd g))))"
    by (simp add: randint_ok bound_draw_def)
  have r2: "randint 1 (bound_draw a g) (fst g, Suc (Suc (snd g))) =
     Inr (count_draw a g, (fst g, Suc (Suc (Suc (snd g)))))"
    by (simp add: randint_ok bound_draw_bounds count_draw_def)
  show ?thesis
    by (simp add: day_body_def randint_ok contributions_per_day_def inclusion_draw_def [symmetric]
        r1 r2 append_commit_times_evening [OF assms c])
qed

lemma day_body_shape:
  assumes "evening day" and "0 < ordinal day" and "ordinal day \<le> MAXORDINAL"
    and "day_body a day g acc = Inr (res, g')"
  shows "\<exists>c. 0 \<le> c \<and> c \<le> max 1 (min 20 (max_commits a)) \<and>
             res = acc @ map (at_minute day) (range_py c) \<and>
             (0 < c \<longrightarrow> (no_weekends a \<longrightarrow> weekday day < 5) \<and> 0 < frequency a)"
proof (cases "(\<not> no_weekends a \<or> weekday day < 5) \<and> inclusion_draw g < frequency a")
  case True
  then have "res = acc @ map (at_minute day) (range_py (count_draw a g))"
    using assms(4) by (simp add: day_body_eq [OF assms(1-3)])
  moreover have "0 < frequency a" using True inclusion_draw_bounds(1) [of g] by linarith
  moreover have "0 \<le> count_draw a g" "count_draw a g \<le> max 1 (min 20 (max_commits a))"
    using count_draw_bounds [of a g] bound_draw_bounds(2) [of a g] by linarith+
  ultimately show ?thesis using True by blast
next
  case False
  then have "res = acc" using assms(4) by (auto simp: day_body_eq [OF assms(1-3)] split: if_splits)
  then have "res = acc @ map (at_minute day) (range_py 0)" by (simp add: range_py_def)
  then show ?thesis by force 
qed

lemma days_loop_Cons:
  assumes "evening S" and "days_loop a S (n # ns) g acc = Inr (res, g')"
  obtains cds g1 where "0 < ordinal S + n" and "ordinal S + n \<le> MAXORDINAL"
    and "day_body a (on_day S n) g acc = Inr (cds, g1)"
    and "days_loop a S ns g1 cds = Inr (res, g')"
proof -
  from assms(2) have t: "timedelta_days n = Inr \<lparr>days = n, seconds = 0, microseconds = 0\<rparr>"
    by (auto simp: timedelta_days_def split: if_splits)
  from assms(2) have r: "0 < ordinal S + n \<and> ordinal S + n \<le> MAXORDINAL"
    by (auto simp: t dt_add_days_evening [OF assms(1)] split: if_splits)
  then have d: "dt_add S \<lparr>days = n, seconds = 0, microseconds = 0\<rparr> = Inr (on_day S n)"
    by (simp add: dt_add_days_evening [OF assms(1)])
  from assms(2) obtain cds g1 where "day_body a (on_day S n) g acc = Inr (cds, g1)"
    "days_loop a S ns g1 cds = Inr (res, g')"
    by (auto simp: t d split: sum.splits)
  with r that show thesis by blast
qed

section \<open>The loops of the synthesizer\<close>

lemma weekday_at_minute: "weekday (at_minute t m) = weekday t"
  by (simp add: weekday_def at_minute_def)

lemma ordinal_at_minute: "ordinal (at_minute t m) = ordinal t"
  by (simp add: at_minute_def)

lemma days_loop_members:
  assumes "evening S"
  shows "days_loop a S ns g acc = Inr (res, g') \<Longrightarrow> d \<in> set res \<Longrightarrow>
     d \<in> set acc \<or>
     (\<exists>n\<in>set ns. \<exists>m. 0 \<le> m \<and> m < max 1 (min 20 (max_commits a)) \<and>
        d = at_minute (on_day S n) m \<and> 0 < ordinal S + n \<and> ordinal S + n \<le> MAXORDINAL \<and>
        (no_weekends a \<longrightarrow> weekday (on_day S n) < 5) \<and> 0 < frequency a)"
proof (induction ns arbitrary: g acc)
  case Nil
  then show ?case by simp
next
  case (Cons n ns)
  from Cons.prems(1) obtain cds g1 where r: "0 < ordinal S + n" "ordinal S + n \<le> MAXORDINAL"
    and b: "day_body a (on_day S n) g acc = Inr (cds, g1)"
    and l: "days_loop a S ns g1 cds = Inr (res, g')"
    by (rule days_loop_Cons [OF assms])
  from day_body_shape [OF evening_on_day [OF assms] _ _ b] r
  obtain c where c: "0 \<le> c" "c \<le> max 1 (min 20 (max_commits a))"
    "cds = acc @ map (at_minute (on_day S n)) (range_py c)"
    "0 < c \<longrightarrow> (no_weekends a \<longrightarrow> weekday (on_day S n) < 5) \<and> 0 < frequency a"
    by (auto simp: ordinal_on_day)
  from Cons.IH [OF l Cons.prems(2)] show ?case
  proof
    assume "d \<in> set cds"
    then consider "d \<in> set acc" | m where "m \<in> set (range_py c)" "d = at_minute (on_day S n) m"
      using c(3) by auto
    then show ?thesis
    proof cases
      case 1
      then show ?thesis by simp
    next
      case 2
      then have "0 \<le> m" "m < c" by (simp_all add: set_range_py)
      then have "0 \<le> m \<and> m < max 1 (min 20 (max_commits a)) \<and> 0 < c" using c(2) by linarith
      then show ?thesis using 2(2) r c(4) by auto
    qed
  next
    assume "\<exists>n\<in>set ns. \<exists>m. 0 \<le> m \<and> m < max 1 (min 20 (max_commits a)) \<and>
        d = at_minute (on_day S n) m \<and> 0 < ordinal S + n \<and> ordinal S + n \<le> MAXORDINAL \<and>
        (no_weekends a \<longrightarrow> weekday (on_day S n) < 5) \<and> 0 < frequency a"
    then show ?thesis by auto
  qed
qed

lemma dt_less_minutes:
  "m < m' \<Longrightarrow> dt_less (at_minute t m) (at_minute t m')"
  by (simp add: dt_less_def at_minute_def)

lemma dt_less_ordinal: "ordinal x < ordinal y \<Longrightarrow> dt_less x y"
  by (simp add: dt_less_def)

lemma sorted_block: "sorted_wrt dt_less (map (at_minute t) (range_py c))"
proof -
  have "sorted_wrt (<) (range_py c)"
    unfolding range_py_def by (rule sorted_wrt_upto)
  then have "sorted_wrt (\<lambda>m m'. dt_less (at_minute t m) (at_minute t m')) (range_py c)"
    by (rule sorted_wrt_mono_rel [rotated]) (rule dt_less_minutes)
  then show ?thesis by (simp only: sorted_wrt_map)
qed

lemma days_loop_sorted:
  assumes "evening S"
  shows "days_loop a S ns g acc = Inr (res, g') \<Longrightarrow> sorted_wrt (<) ns \<Longrightarrow>
     sorted_wrt dt_less acc \<Longrightarrow> (\<forall>x\<in>set acc. \<forall>n\<in>set ns. ordinal x < ordinal S + n) \<Longrightarrow>
     sorted_wrt dt_less res"
proof (induction ns arbitrary: g acc)
  case Nil
  then show ?case by simp
next
  case (Cons n ns)
  from Cons.prems(1) obtain cds g1 where r: "0 < ordinal S + n" "ordinal S + n \<le> MAXORDINAL"
    and b: "day_body a (on_day S n) g acc = Inr (cds, g1)"
    and l: "days_loop a S ns g1 cds = Inr (res, g')"
    by (rule days_loop_Cons [OF assms])
  from day_body_shape [OF evening_on_day [OF assms] _ _ b] r
  obtain c where c: "cds = acc @ map (at_minute (on_day S n)) (range_py c)"
    by (auto simp: ordinal_on_day)
  define blk where "blk = map (at_minute (on_day S n)) (range_py c)"
  have o: "ordinal y = ordinal S + n" if "y \<in> set blk" for y
    using that by (auto simp: blk_def ordinal_at_minute ordinal_on_day)
  have x: "dt_less x y" if "x \<in> set acc" "y \<in> set blk" for x y
  proof -
    have "ordinal x < ordinal S + n" using Cons.prems(4) that(1) by simp
    then show ?thesis using o [OF that(2)] by (simp add: dt_less_ordinal)
  qed
  have sb: "sorted_wrt dt_less blk" unfolding blk_def by (rule sorted_block)
  have s: "sorted_wrt dt_less cds"
    unfolding c blk_def [symmetric] using Cons.prems(3) sb x
    by (simp add: sorted_wrt_append)
  have i: "\<forall>x\<in>set cds. \<forall>n'\<in>set ns. ordinal x < ordinal S + n'"
  proof (intro ballI)
    fix x n' assume xs: "x \<in> set cds" and n': "n' \<in> set ns"
    from Cons.prems(2) n' have lt: "n < n'" by simp
    from xs have "x \<in> set acc \<or> x \<in> set blk" by (simp add: c blk_def)
    then show "ordinal x < ordinal S + n'"
    proof
      assume "x \<in> set acc"
      then show ?thesis using Cons.prems(4) n' by simp
    next
      assume "x \<in> set blk"
      then show ?thesis using o lt by simp
    qed
  qed
  from Cons.prems(2) have "sorted_wrt (<) ns" by simp
  from Cons.IH [OF l this s i] show ?case .
qed

lemma timedelta_neg_days:
  "timedelta_neg \<lparr>days = n, seconds = 0, microseconds = 0\<rparr> =
     \<lparr>days = - n, seconds = 0, microseconds = 0\<rparr>"
  by (simp add: timedelta_neg_def)

lemma evening_anchor: "valid_datetime now \<Longrightarrow> evening (anchor now)"
  by (simp add: evening_def anchor_def replace_hour_minute_def valid_datetime_def)

lemma ordinal_anchor: "ordinal (anchor now) = ordinal now"
  by (simp add: anchor_def replace_hour_minute_def)

lemma generate_commit_dates_rng_eq:
  assumes "valid_datetime now"
  shows "generate_commit_dates_rng a now g =
    (if \<bar>days_before a\<bar> > 999999999 then Inl OverflowError
     else if 0 < ordinal now - days_before a \<and> ordinal now - days_before a \<le> MAXORDINAL
     then days_loop a (on_day (anchor now) (- days_before a))
            (range_py (days_before a + days_after a)) g []
     else Inl OverflowError)"
  by (simp add: generate_commit_dates_rng_def timedelta_days_def dt_sub_def timedelta_neg_days
      dt_add_days_evening [OF evening_anchor [OF assms]] ordinal_anchor)

lemma generate_commit_dates_Inr:
  assumes "valid_datetime now" and "generate_commit_dates a now g = Inr dates"
  obtains g' where "days_loop a (on_day (anchor now) (- days_before a))
            (range_py (days_before a + days_after a)) g [] = Inr (dates, g')"
proof -
  from assms(2) obtain g' where "generate_commit_dates_rng a now g = Inr (dates, g')"
    by (cases "generate_commit_dates_rng a now g") (auto simp: generate_commit_dates_def)
  then have "days_loop a (on_day (anchor now) (- days_before a))
            (range_py (days_before a + days_after a)) g [] = Inr (dates, g')"
    by (simp add: generate_commit_dates_rng_eq [OF assms(1)] split: if_splits)
  then show thesis by (rule that)
qed

lemma on_day_on_day: "on_day (on_day t i) j = on_day t (i + j)"
  by (simp add: on_day_def)

lemma generate_commit_dates_members:
  assumes "valid_datetime now" and "generate_commit_dates a now g = Inr dates"
    and "d \<in> set dates"
  shows "\<exists>n m. - days_before a \<le> n \<and> n < days_after a \<and>
           0 \<le> m \<and> m < max 1 (min 20 (max_commits a)) \<and>
           d = at_minute (on_day (anchor now) n) m \<and>
           0 < ordinal now + n \<and> ordinal now + n \<le> MAXORDINAL \<and>
           (no_weekends a \<longrightarrow> weekday d < 5) \<and> 0 < frequency a"
proof -
  from assms(1,2) obtain g' where l: "days_loop a (on_day (anchor now) (- days_before a))
            (range_py (days_before a + days_after a)) g [] = Inr (dates, g')"
    by (rule generate_commit_dates_Inr)
  from days_loop_members [OF evening_on_day [OF evening_anchor [OF assms(1)]] l assms(3)]
  obtain k m where k: "k \<in> set (range_py (days_before a + days_after a))"
    and m: "0 \<le> m" "m < max 1 (min 20 (max_commits a))"
    and d: "d = at_minute (on_day (on_day (anchor now) (- days_before a)) k) m"
    and r: "0 < ordinal (on_day (anchor now) (- days_before a)) + k"
      "ordinal (on_day (anchor now) (- days_before a)) + k \<le> MAXORDINAL"
    and w: "no_weekends a \<longrightarrow> weekday (on_day (on_day (anchor now) (- days_before a)) k) < 5"
    and f: "0 < frequency a"
    by auto
  let ?n = "- days_before a + k"
  from k have "- days_before a \<le> ?n" "?n < days_after a" by (simp_all add: set_range_py)
  moreover have "d = at_minute (on_day (anchor now) ?n) m" using d by (simp add: on_day_on_day)
  moreover have "0 < ordinal now + ?n" "ordinal now + ?n \<le> MAXORDINAL"
    using r by (simp_all add: ordinal_on_day ordinal_anchor)
  moreover have "no_weekends a \<longrightarrow> weekday d < 5" using w d by (simp add: weekday_at_minute)
  ultimately show ?thesis using m f by blast
qed

lemma randint_value_small: "a \<le> b \<Longrightarrow> int r \<le> b - a \<Longrightarrow> randint_value a b r = a + int r"
  by (simp add: randint_value_def)

lemma randint_value_bij:
  assumes "a \<le> b"
  shows "bij_betw (randint_value a b) {0..<nat (b - a + 1)} {a..b}"
proof (rule bij_betw_byWitness [where f' = "\<lambda>v. nat (v - a)"])
  show "\<forall>r\<in>{0..<nat (b - a + 1)}. nat (randint_value a b r - a) = r"
    by (simp add: randint_value_def)
  show "\<forall>v\<in>{a..b}. randint_value a b (nat (v - a)) = v"
    by (auto simp: randint_value_def)
  show "randint_value a b ` {0..<nat (b - a + 1)} \<subseteq> {a..b}"
    using randint_value_bounds [OF assms] by auto
  show "(\<lambda>v. nat (v - a)) ` {a..b} \<subseteq> {0..<nat (b - a + 1)}"
    by auto
qed

lemma range_py_nonempty: "1 \<le> c \<Longrightarrow> range_py c \<noteq> []"
  by (simp add: range_py_def)

lemma day_dates_eq:
  assumes "evening day" and "0 < ordinal day" and "ordinal day \<le> MAXORDINAL"
    and "\<not> no_weekends a \<or> weekday day < 5"
  shows "day_dates a day g =
     (if inclusion_draw g < frequency a
      then map (at_minute day) (range_py (count_draw a g)) else [])"
  using assms(4) by (simp add: day_dates_def day_body_eq [OF assms(1-3)])

lemma inclusion_draw_next_raw: "r \<le> 100 \<Longrightarrow> inclusion_draw (next_raw r g) = int r"
  by (simp add: inclusion_draw_def next_raw_def randint_value_small)

lemma days_loop_returns:
  assumes "evening S"
  shows "\<forall>n\<in>set ns. \<bar>n\<bar> \<le> 999999999 \<and> 0 < ordinal S + n \<and> ordinal S + n \<le> MAXORDINAL \<Longrightarrow>
     \<exists>res g'. days_loop a S ns g acc = Inr (res, g')"
proof (induction ns arbitrary: g acc)
  case Nil
  then show ?case by simp
next
  case (Cons n ns)
  then have n: "\<bar>n\<bar> \<le> 999999999" "0 < ordinal S + n" "ordinal S + n \<le> MAXORDINAL" by simp_all
  have t: "timedelta_days n = Inr \<lparr>days = n, seconds = 0, microseconds = 0\<rparr>"
    using n(1) by (simp add: timedelta_days_def)
  have d: "dt_add S \<lparr>days = n, seconds = 0, microseconds = 0\<rparr> = Inr (on_day S n)"
    using n(2,3) by (simp add: dt_add_days_evening [OF assms])
  have "\<exists>cds g1. day_body a (on_day S n) g acc = Inr (cds, g1)"
    using n(2,3) by (simp add: day_body_eq [OF evening_on_day [OF assms]] ordinal_on_day)
  then obtain cds g1 where b: "day_body a (on_day S n) g acc = Inr (cds, g1)" by blast
  from Cons.prems have "\<forall>n\<in>set ns. \<bar>n\<bar> \<le> 999999999 \<and> 0 < ordinal S + n \<and> ordinal S + n \<le> MAXORDINAL"
    by simp
  from Cons.IH [OF this] obtain res g' where "days_loop a S ns g1 cds = Inr (res, g')" by blast
  then show ?case by (simp add: t d b)
qed

lemma generate_commit_dates_returns:
  assumes "valid_datetime now" and "window_in_calendar a now"
  shows "\<exists>dates. generate_commit_dates a now g = Inr dates"
proof -
  let ?S = "on_day (anchor now) (- days_before a)"
  from assms have w: "0 < ordinal now - days_before a" "ordinal now - days_before a \<le> MAXORDINAL"
    "ordinal now + days_after a - 1 \<le> MAXORDINAL" "1 \<le> ordinal now" "ordinal now \<le> MAXORDINAL"
    by (simp_all add: window_in_calendar_def valid_datetime_def)
  have db: "\<not> \<bar>days_before a\<bar> > 999999999" using w by (simp add: MAXORDINAL_def)
  have "\<forall>n\<in>set (range_py (days_before a + days_after a)).
     \<bar>n\<bar> \<le> 999999999 \<and> 0 < ordinal ?S + n \<and> ordinal ?S + n \<le> MAXORDINAL"
    using w by (auto simp: set_range_py ordinal_on_day ordinal_anchor MAXORDINAL_def)
  from days_loop_returns [OF evening_on_day [OF evening_anchor [OF assms(1)]] this]
  obtain res g' where "days_loop a ?S (range_py (days_before a + days_after a)) g [] = Inr (res, g')"
    by blast
  then have "generate_commit_dates_rng a now g = Inr (res, g')"
    using db w(1,2) by (simp add: generate_commit_dates_rng_eq [OF assms(1)])
  then show ?thesis by (simp add: generate_commit_dates_def)
qed

section \<open>Each candidate day in the returned schedule\<close>

lemma day_body_acc:
  assumes "evening day" and "0 < ordinal day" and "ordinal day \<le> MAXORDINAL"
  shows "day_body a day g acc = Inr (acc @ day_dates a day g, rng_after_day a day g)"
  by (simp add: day_dates_def rng_after_day_def day_body_eq [OF assms])

lemma day_dates_cases:
  assumes "evening day" and "0 < ordinal day" and "ordinal day \<le> MAXORDINAL"
  shows "day_dates a day g =
     (if (\<not> no_weekends a \<or> weekday day < 5) \<and> inclusion_draw g < frequency a
      then map (at_minute day) (range_py (count_draw a g)) else [])"
  by (simp add: day_dates_def day_body_eq [OF assms])

lemma day_dates_ordinal:
  assumes "evening day" and "0 < ordinal day" and "ordinal day \<le> MAXORDINAL"
    and "d \<in> set (day_dates a day g)"
  shows "ordinal d = ordinal day"
  using assms(4) by (auto simp: day_dates_cases [OF assms(1-3)] ordinal_at_minute split: if_splits)

lemma day_dates_length:
  assumes "evening day" and "0 < ordinal day" and "ordinal day \<le> MAXORDINAL"
  shows "int (length (day_dates a day g)) \<le> max 1 (min 20 (max_commits a))"
proof -
  have "1 \<le> count_draw a g" "count_draw a g \<le> max 1 (min 20 (max_commits a))"
    using count_draw_bounds [of a g] bound_draw_bounds(2) [of a g] by linarith+
  then show ?thesis
    by (simp add: day_dates_cases [OF assms] length_range_py)
qed

lemma days_loop_step:
  assumes "evening S" and "days_loop a S (n # ns) g acc = Inr (res, g')"
  shows "0 < ordinal S + n" and "ordinal S + n \<le> MAXORDINAL"
    and "days_loop a S ns (rng_after_day a (on_day S n) g) (acc @ day_dates a (on_day S n) g) =
           Inr (res, g')"
proof -
  from assms(2) obtain cds g1 where r: "0 < ordinal S + n" "ordinal S + n \<le> MAXORDINAL"
    and b: "day_body a (on_day S n) g acc = Inr (cds, g1)"
    and l: "days_loop a S ns g1 cds = Inr (res, g')"
    by (rule days_loop_Cons [OF assms(1)])
  from r show "0 < ordinal S + n" "ordinal S + n \<le> MAXORDINAL" .
  have "day_body a (on_day S n) g acc =
      Inr (acc @ day_dates a (on_day S n) g, rng_after_day a (on_day S n) g)"
    using r by (intro day_body_acc [OF evening_on_day [OF assms(1)]]) (simp_all add: ordinal_on_day)
  with b have "cds = acc @ day_dates a (on_day S n) g" "g1 = rng_after_day a (on_day S n) g"
    by simp_all
  with l show "days_loop a S ns (rng_after_day a (on_day S n) g) (acc @ day_dates a (on_day S n) g) =
           Inr (res, g')" by simp
qed

lemma days_loop_in_range:
  assumes "evening S"
  shows "days_loop a S ns g acc = Inr (res, g') \<Longrightarrow> n \<in> set ns \<Longrightarrow>
     0 < ordinal S + n \<and> ordinal S + n \<le> MAXORDINAL"
proof (induction ns arbitrary: g acc)
  case Nil
  then show ?case by simp
next
  case (Cons m ns)
  note s = days_loop_step [OF assms Cons.prems(1)]
  show ?case
  proof (cases "n = m")
    case True
    then show ?thesis using s(1,2) by simp
  next
    case False
    then have "n \<in> set ns" using Cons.prems(2) by simp
    from Cons.IH [OF s(3) this] show ?thesis .
  qed
qed

lemma days_loop_extends:
  assumes "evening S"
  shows "days_loop a S ns g acc = Inr (res, g') \<Longrightarrow>
     \<exists>rest. res = acc @ rest \<and> (\<forall>d\<in>set rest. \<exists>n\<in>set ns. ordinal d = ordinal S + n)"
proof (induction ns arbitrary: g acc)
  case Nil
  then show ?case by simp
next
  case (Cons m ns)
  note s = days_loop_step [OF assms Cons.prems]
  from Cons.IH [OF s(3)] obtain rest where
    r: "res = (acc @ day_dates a (on_day S m) g) @ rest"
    and o: "\<forall>d\<in>set rest. \<exists>n\<in>set ns. ordinal d = ordinal S + n"
    by blast
  have b: "\<forall>d\<in>set (day_dates a (on_day S m) g). ordinal d = ordinal S + m"
  proof
    fix d assume "d \<in> set (day_dates a (on_day S m) g)"
    then have "ordinal d = ordinal (on_day S m)"
      using s(1,2)
      by (intro day_dates_ordinal [OF evening_on_day [OF assms]]) (simp_all add: ordinal_on_day)
    then show "ordinal d = ordinal S + m" by (simp add: ordinal_on_day)
  qed
  have "res = acc @ (day_dates a (on_day S m) g @ rest)" using r by simp
  moreover have "\<forall>d\<in>set (day_dates a (on_day S m) g @ rest).
      \<exists>n\<in>set (m # ns). ordinal d = ordinal S + n"
    using b o by auto
  ultimately show ?case by blast
qed

lemma days_loop_filter:
  assumes "evening S"
  shows "days_loop a S ns g acc = Inr (res, g') \<Longrightarrow> distinct ns \<Longrightarrow> n \<in> set ns \<Longrightarrow>
     filter (\<lambda>d. ordinal d = ordinal S + n) res =
       filter (\<lambda>d. ordinal d = ordinal S + n) acc @
       day_dates a (on_day S n)
         (fold (\<lambda>m. rng_after_day a (on_day S m)) (takeWhile (\<lambda>m. m \<noteq> n) ns) g)"
proof (induction ns arbitrary: g acc)
  case Nil
  then show ?case by simp
next
  case (Cons m ns)
  note s = days_loop_step [OF assms Cons.prems(1)]
  have b: "ordinal d = ordinal S + m" if "d \<in> set (day_dates a (on_day S m) g)" for d
  proof -
    have "ordinal d = ordinal (on_day S m)"
      using s(1,2) that
      by (intro day_dates_ordinal [OF evening_on_day [OF assms]]) (simp_all add: ordinal_on_day)
    then show ?thesis by (simp add: ordinal_on_day)
  qed
  show ?case
  proof (cases "m = n")
    case True
    from days_loop_extends [OF assms s(3)] obtain rest where
      r: "res = (acc @ day_dates a (on_day S m) g) @ rest"
      and o: "\<forall>d\<in>set rest. \<exists>k\<in>set ns. ordinal d = ordinal S + k"
      by blast
    have "n \<notin> set ns" using Cons.prems(2) True by simp
    then have "\<forall>d\<in>set rest. ordinal d \<noteq> ordinal S + n" using o by auto
    then have f1: "filter (\<lambda>d. ordinal d = ordinal S + n) rest = []"
      by (simp add: filter_empty_conv)
    have f2: "filter (\<lambda>d. ordinal d = ordinal S + n) (day_dates a (on_day S n) g) =
        day_dates a (on_day S n) g"
      using b True by (simp add: filter_id_conv)
    show ?thesis using True by (simp add: r f1 f2)
  next
    case False
    then have n: "n \<in> set ns" using Cons.prems(3) by simp
    from Cons.prems(2) have d: "distinct ns" by simp
    have "\<forall>d\<in>set (day_dates a (on_day S m) g). ordinal d \<noteq> ordinal S + n"
      using b False by auto
    then have f: "filter (\<lambda>d. ordinal d = ordinal S + n) (day_dates a (on_day S m) g) = []"
      by (simp add: filter_empty_conv)
    from Cons.IH [OF s(3) d n] show ?thesis using False by (simp add: f)
  qed
qed

lemma takeWhile_range_py:
  assumes "0 \<le> k" and "k < K"
  shows "takeWhile (\<lambda>m. m \<noteq> k) (range_py K) = range_py k"
proof -
  have "[0..K - 1] = [0..k - 1] @ k # [k + 1..K - 1]"
    using assms by (intro upto_split3) simp_all
  moreover have "takeWhile (\<lambda>m. m \<noteq> k) ([0..k - 1] @ k # [k + 1..K - 1]) = [0..k - 1]"
    by (subst takeWhile_append2) auto
  ultimately show ?thesis by (simp add: range_py_def)
qed

lemma candidate_day_start:
  "on_day (on_day (anchor now) (- days_before a)) n = candidate_day a now n"
  by (simp add: candidate_day_def on_day_on_day)

lemma ordinal_candidate_day: "ordinal (candidate_day a now k) = ordinal now + k - days_before a"
  by (simp add: candidate_day_def ordinal_on_day ordinal_anchor)

lemma evening_candidate_day: "valid_datetime now \<Longrightarrow> evening (candidate_day a now k)"
  by (simp add: candidate_day_def evening_on_day evening_anchor)

lemma candidate_day_in_range:
  assumes "valid_datetime now" and "generate_commit_dates a now g = Inr dates"
    and "0 \<le> k" and "k < days_before a + days_after a"
  shows "0 < ordinal (candidate_day a now k)" and "ordinal (candidate_day a now k) \<le> MAXORDINAL"
proof -
  from assms(1,2) obtain g' where l: "days_loop a (on_day (anchor now) (- days_before a))
            (range_py (days_before a + days_after a)) g [] = Inr (dates, g')"
    by (rule generate_commit_dates_Inr)
  have k: "k \<in> set (range_py (days_before a + days_after a))"
    using assms(3,4) by (simp add: set_range_py)
  from days_loop_in_range [OF evening_on_day [OF evening_anchor [OF assms(1)]] l k]
  show "0 < ordinal (candidate_day a now k)" "ordinal (candidate_day a now k) \<le> MAXORDINAL"
    by (simp_all add: ordinal_candidate_day ordinal_on_day ordinal_anchor)
qed

lemma schedule_on_candidate_day:
  assumes "valid_datetime now" and "generate_commit_dates a now g = Inr dates"
    and "0 \<le> k" and "k < days_before a + days_after a"
  shows "dates_on dates (ordinal (candidate_day a now k)) =
           day_dates a (candidate_day a now k) (rng_at_day a now k g)"
proof -
  let ?S = "on_day (anchor now) (- days_before a)"
  from assms(1,2) obtain g' where l: "days_loop a ?S
            (range_py (days_before a + days_after a)) g [] = Inr (dates, g')"
    by (rule generate_commit_dates_Inr)
  have k: "k \<in> set (range_py (days_before a + days_after a))"
    using assms(3,4) by (simp add: set_range_py)
  have d: "distinct (range_py (days_before a + days_after a))"
    by (simp add: range_py_def)
  have o: "ordinal ?S + k = ordinal (candidate_day a now k)"
    by (simp add: ordinal_candidate_day ordinal_on_day ordinal_anchor)
  have c: "(\<lambda>m. rng_after_day a (on_day ?S m)) = (\<lambda>n. rng_after_day a (candidate_day a now n))"
    by (simp add: candidate_day_start)
  from days_loop_filter [OF evening_on_day [OF evening_anchor [OF assms(1)]] l d k]
  show ?thesis
    by (simp add: o c dates_on_def takeWhile_range_py [OF assms(3,4)] candidate_day_start
        rng_at_day_def)
qed

lemma schedule_off_candidate_days:
  assumes "valid_datetime now" and "generate_commit_dates a now g = Inr dates"
    and "\<not> (ordinal now - days_before a \<le> d \<and> d < ordinal now + days_after a)"
  shows "dates_on dates d = []"
proof -
  have "\<forall>t\<in>set dates. ordinal t \<noteq> d"
  proof
    fix t assume "t \<in> set dates"
    from generate_commit_dates_members [OF assms(1,2) this]
    obtain n m where "- days_before a \<le> n" "n < days_after a"
      "t = at_minute (on_day (anchor now) n) m" by blast
    then show "ordinal t \<noteq> d"
      using assms(3) by (auto simp: ordinal_at_minute ordinal_on_day ordinal_anchor)
  qed
  then show ?thesis by (simp add: dates_on_def filter_empty_conv)
qed

lemma rng_at_day_next:
  assumes "0 \<le> k"
  shows "rng_at_day a now (k + 1) g =
           rng_after_day a (candidate_day a now k) (rng_at_day a now k g)"
proof -
  have "[0..k] = [0..k - 1] @ [k]" using assms by (intro upto_rec2) simp
  then show ?thesis by (simp add: rng_at_day_def range_py_def)
qed

lemma rng_after_included_day:
  assumes "evening day" and "0 < ordinal day" and "ordinal day \<le> MAXORDINAL"
    and "\<not> no_weekends a \<or> weekday day < 5" and "inclusion_draw g < frequency a"
  shows "rng_after_day a day g = (fst g, Suc (Suc (Suc (snd g))))"
  using assms(4,5) by (simp add: rng_after_day_def day_body_eq [OF assms(1-3)])

section \<open>Strings and the driver\<close>

lemma rfind_notin: "c \<notin> set s \<Longrightarrow> rfind s c = - 1"
  by (induction s) (auto simp: Let_def)

lemma rfind_in: "c \<in> set s \<Longrightarrow> 0 \<le> rfind s c"
  by (induction s) (auto simp: Let_def)

lemma rfind_less: "rfind s c < int (length s)"
  by (induction s) (auto simp: Let_def)

lemma rfind_append_in: "c \<in> set ys \<Longrightarrow> rfind (xs @ ys) c = int (length xs) + rfind ys c"
proof (induction xs)
  case Nil
  then show ?case by simp
next
  case (Cons x xs)
  then have "0 \<le> int (length xs) + rfind ys c" using rfind_in [of c ys] by simp
  with Cons show ?case by (simp add: Let_def)
qed

lemma rfind_append_notin: "c \<notin> set ys \<Longrightarrow> rfind (xs @ ys) c = rfind xs c"
  by (induction xs) (simp_all add: rfind_notin Let_def)

lemma rfind_last_occurrence: "c \<notin> set ys \<Longrightarrow> rfind (xs @ c # ys) c = int (length xs)"
  using rfind_append_in [of c "c # ys" xs] by (simp add: rfind_notin Let_def)

lemma start_after_last_slash:
  assumes "pre = [] \<or> last pre = CHR ''/''" and "CHR ''/'' \<notin> set rest"
  shows "rfind (pre @ rest) CHR ''/'' + 1 = int (length pre)"
proof (cases "pre = []")
  case True
  then show ?thesis using assms(2) by (simp add: rfind_notin)
next
  case False
  with assms(1) obtain p where p: "pre = p @ [CHR ''/'']"
    by (metis append_butlast_last_id)
  then have "rfind (pre @ rest) CHR ''/'' = int (length p)"
    using rfind_last_occurrence [OF assms(2), of p] by simp
  then show ?thesis by (simp add: p)
qed

lemma py_slice_middle:
  "py_slice (xs @ ys @ zs) (int (length xs)) (int (length xs) + int (length ys)) = ys"
  by (simp add: py_slice_def slice_index_def Let_def)

lemma py_slice_backwards:
  assumes "0 \<le> j" and "j \<le> i"
  shows "py_slice s i j = []"
proof -
  have "slice_index (int (length s)) j \<le> slice_index (int (length s)) i"
    using assms by (simp add: slice_index_def)
  then show ?thesis by (simp add: py_slice_def Let_def)
qed

lemma map_nth_range:
  assumes "n \<le> length xs"
  shows "map ((!) xs) [m..<n] = drop m (take n xs)"
proof (rule nth_equalityI)
  show "length (map ((!) xs) [m..<n]) = length (drop m (take n xs))"
    using assms by simp
  fix i assume "i < length (map ((!) xs) [m..<n])"
  then have i: "i < n - m" by simp
  then show "map ((!) xs) [m..<n] ! i = drop m (take n xs) ! i"
    using assms by (simp add: nth_map_upt)
qed

lemma rfind_nth: "c \<in> set s \<Longrightarrow> s ! nat (rfind s c) = c"
proof (induction s)
  case Nil
  then show ?case by simp
next
  case (Cons x xs)
  show ?case
  proof (cases "c \<in> set xs")
    case True
    then have r: "0 \<le> rfind xs c" by (rule rfind_in)
    then have "nat (rfind xs c + 1) = Suc (nat (rfind xs c))" by simp
    then show ?thesis using Cons.IH [OF True] r by (simp add: Let_def)
  next
    case False
    then have "x = c" using Cons.prems by simp
    then show ?thesis using False by (simp add: rfind_notin Let_def)
  qed
qed

lemma rfind_is_last: "c \<notin> set (drop (nat (rfind s c + 1)) s)"
proof (induction s)
  case Nil
  then show ?case by simp
next
  case (Cons x xs)
  show ?case
  proof (cases "c \<in> set xs")
    case True
    then have r: "0 \<le> rfind xs c" by (rule rfind_in)
    then have "nat (rfind xs c + 1 + 1) = Suc (nat (rfind xs c + 1))" by simp
    then show ?thesis using Cons.IH r by (simp add: Let_def)
  next
    case False
    then show ?thesis by (auto simp: rfind_notin Let_def)
  qed
qed

lemma py_slice_between:
  assumes "0 \<le> i" and "0 \<le> j" and "j \<le> int (length s)"
  shows "py_slice s i j = between s i j"
proof -
  have j: "nat j \<le> length s" using assms(2,3) by simp
  have "between s i j = drop (nat i) (take (nat j) s)"
    unfolding between_def by (rule map_nth_range [OF j])
  also have "\<dots> = take (nat j - nat i) (drop (nat i) s)" by (rule drop_take)
  finally have b: "between s i j = take (nat j - nat i) (drop (nat i) s)" .
  show ?thesis
  proof (cases "i \<le> int (length s)")
    case True
    then have "py_slice s i j = take (nat (j - i)) (drop (nat i) s)"
      using assms by (simp add: py_slice_def slice_index_def Let_def min_def)
    moreover have "nat (j - i) = nat j - nat i" using assms(1) by (simp add: nat_diff_distrib')
    ultimately show ?thesis by (simp add: b)
  next
    case False
    then show ?thesis using assms by (simp add: b py_slice_def slice_index_def Let_def)
  qed
qed

lemma determine_directory_shape:
  assumes "repository a = Some (pre @ name @ CHR ''.'' # ext)"
    and "pre = [] \<or> last pre = CHR ''/''"
    and "CHR ''/'' \<notin> set name" and "CHR ''/'' \<notin> set ext" and "CHR ''.'' \<notin> set ext"
  shows "determine_directory a now = name"
proof -
  let ?url = "pre @ name @ CHR ''.'' # ext"
  have s: "rfind ?url CHR ''/'' + 1 = int (length pre)"
    using assms(3,4) by (intro start_after_last_slash [OF assms(2)]) simp
  have e: "rfind ?url CHR ''.'' = int (length pre) + int (length name)"
    using rfind_last_occurrence [OF assms(5), of "pre @ name"] by simp
  have "py_slice ?url (int (length pre)) (int (length pre) + int (length name)) = name"
    using py_slice_middle [of pre name "CHR ''.'' # ext"] by simp
  then show ?thesis
    by (simp add: determine_directory_def assms(1) Let_def s e del: append_assoc)
qed

lemma default_name:
  "determine_directory (a\<lparr>repository := None\<rparr>) now =
     ''repository-'' @ fmt_Y now @ ''-'' @ fmt_m now @ ''-'' @ fmt_d now @ ''-'' @
     fmt_H now @ ''-'' @ fmt_M now @ ''-'' @ fmt_S now"
  "determine_directory (a\<lparr>repository := Some []\<rparr>) now =
     ''repository-'' @ fmt_Y now @ ''-'' @ fmt_m now @ ''-'' @ fmt_d now @ ''-'' @
     fmt_H now @ ''-'' @ fmt_M now @ ''-'' @ fmt_S now"
  by (simp_all add: determine_directory_def)

lemma run_command_keeps: "printed (run_command c w) = printed w"
  "existing (run_command c w) = existing w"
  by (simp_all add: run_command_def)

lemma contribute_keeps: "printed (contribute d w) = printed w"
  "existing (contribute d w) = existing w"
  by (simp_all add: contribute_def Let_def run_command_keeps)

lemma fold_contribute_keeps: "printed (fold contribute ds w) = printed w"
  "existing (fold contribute ds w) = existing w"
  by (induction ds arbitrary: w) (simp_all add: contribute_keeps)

lemma setup_remote_repository_keeps: "printed (setup_remote_repository u w) = printed w"
  "existing (setup_remote_repository u w) = existing w"
  by (simp_all add: setup_remote_repository_def run_command_keeps)

lemma setup_repository_fresh_directory:
  assumes "directory r \<noteq> []" and "directory r \<notin> existing w"
  shows "\<exists>w'. setup_repository r w = Inr w' \<and>
           printed w' = printed w @ [CHR 0x0A # ''Repository generation completed successfully!''] \<and>
           existing w' = insert (directory r) (existing w)"
proof -
  have m: "mkdir (directory r) w = Inr (w\<lparr>existing := insert (directory r) (existing w)\<rparr>)"
    using assms by (simp add: mkdir_def)
  obtain w1 where c: "create_and_initialize_repository r w = Inr w1"
    and k: "printed w1 = printed w" "existing w1 = insert (directory r) (existing w)"
    by (simp add: create_and_initialize_repository_def m Let_def chdir_def run_command_keeps
        split: option.splits)
  show ?thesis
    by (simp add: setup_repository_def c Let_def k fold_contribute_keeps
        setup_remote_repository_keeps split: option.splits)
qed

section \<open>The inclusion draw of one day\<close>

lemma day_inclusion_rule:
  assumes "evening day" and "0 < ordinal day" and "ordinal day \<le> MAXORDINAL"
    and "\<not> no_weekends a \<or> weekday day < 5" and "valid_datetime now"
  shows "randint 0 100 g = Inr (inclusion_draw g, (fst g, Suc (snd g))) \<and>
         0 \<le> inclusion_draw g \<and> inclusion_draw g \<le> 100 \<and>
         (day_dates a day g \<noteq> []) = (inclusion_draw g < frequency a) \<and>
         {r. r \<le> 100 \<and> day_dates a day (next_raw r g) \<noteq> []} = {r. r \<le> 100 \<and> int r < frequency a} \<and>
         day_dates (a\<lparr>frequency := 0\<rparr>) day g = [] \<and>
         (\<forall>dates. generate_commit_dates (a\<lparr>frequency := 0\<rparr>) now g = Inr dates \<longrightarrow> dates = []) \<and>
         (window_in_calendar a now \<longrightarrow>
            generate_commit_dates (a\<lparr>frequency := 0\<rparr>) now g = Inr []) \<and>
         (day_dates (a\<lparr>frequency := 100\<rparr>) day g = []) = (inclusion_draw g = 100) \<and>
         {r. r \<le> 100 \<and> day_dates (a\<lparr>frequency := 100\<rparr>) day (next_raw r g) = []} = {100} \<and>
         card {r. r \<le> 100 \<and> day_dates (a\<lparr>frequency := 100\<rparr>) day (next_raw r g) = []} = 1 \<and>
         card {r::nat. r \<le> 100} = 101 \<and>
         real (card {r. r \<le> 100 \<and> day_dates (a\<lparr>frequency := 100\<rparr>) day (next_raw r g) = []}) /
           real (card {r::nat. r \<le> 100}) = 1 / 101"
proof -
  have dd: "day_dates a' day g' =
     (if inclusion_draw g' < frequency a'
      then map (at_minute day) (range_py (count_draw a' g')) else [])"
    if "no_weekends a' = no_weekends a" for a' g'
    using assms(4) that by (intro day_dates_eq [OF assms(1-3)]) simp
  have ne: "map (at_minute day) (range_py (count_draw a' g')) \<noteq> []" for a' g'
    using count_draw_bounds(1) [of a' g'] by (simp add: range_py_nonempty)
  have 1: "randint 0 100 g = Inr (inclusion_draw g, (fst g, Suc (snd g)))"
    by (simp add: randint_ok inclusion_draw_def)
  have 2: "(day_dates a' day g' \<noteq> []) = (inclusion_draw g' < frequency a')"
    if "no_weekends a' = no_weekends a" for a' g'
    using ne [of a' g'] by (simp add: dd [OF that])
  have 3: "{r. r \<le> 100 \<and> day_dates a day (next_raw r g) \<noteq> []} = {r. r \<le> 100 \<and> int r < frequency a}"
    by (auto simp: 2 inclusion_draw_next_raw)
  have 4: "day_dates (a\<lparr>frequency := 0\<rparr>) day g = []"
    using 2 [of "a\<lparr>frequency := 0\<rparr>" g] inclusion_draw_bounds(1) [of g] by simp
  have 5: "\<forall>dates. generate_commit_dates (a\<lparr>frequency := 0\<rparr>) now g = Inr dates \<longrightarrow> dates = []"
  proof (intro allI impI)
    fix dates assume g: "generate_commit_dates (a\<lparr>frequency := 0\<rparr>) now g = Inr dates"
    show "dates = []"
    proof (cases dates)
      case Nil
      then show ?thesis .
    next
      case (Cons d ds)
      then have "d \<in> set dates" by simp
      from generate_commit_dates_members [OF assms(5) g this] show ?thesis by simp
    qed
  qed
  have tot: "window_in_calendar a now \<longrightarrow>
            generate_commit_dates (a\<lparr>frequency := 0\<rparr>) now g = Inr []"
  proof
    assume "window_in_calendar a now"
    then have "window_in_calendar (a\<lparr>frequency := 0\<rparr>) now"
      by (simp add: window_in_calendar_def)
    from generate_commit_dates_returns [OF assms(5) this]
    obtain dates where "generate_commit_dates (a\<lparr>frequency := 0\<rparr>) now g = Inr dates" by blast
    with 5 show "generate_commit_dates (a\<lparr>frequency := 0\<rparr>) now g = Inr []" by simp
  qed
  have 6: "(day_dates (a\<lparr>frequency := 100\<rparr>) day g' = []) = (inclusion_draw g' = 100)" for g'
    using 2 [of "a\<lparr>frequency := 100\<rparr>" g'] inclusion_draw_bounds(2) [of g'] by auto
  have 7: "{r. r \<le> 100 \<and> day_dates (a\<lparr>frequency := 100\<rparr>) day (next_raw r g) = []} = {100}"
    by (auto simp: 6 inclusion_draw_next_raw)
  have 8: "card {r::nat. r \<le> 100} = 101"
  proof -
    have "{r::nat. r \<le> 100} = {..100}" by auto
    then show ?thesis by simp
  qed
  show ?thesis
    using 1 inclusion_draw_bounds [of g] 2 [of a g] 3 4 5 tot 6 [of g] 7 8 by simp
qed

section \<open>The calendar fields and their formatting\<close>

lemma month_day_table:
  "\<forall>n\<in>set [0..364]. \<forall>l\<in>set [False, True].
     (case month_day n l of (m, d) \<Rightarrow> 1 \<le> m \<and> m \<le> 12 \<and> 1 \<le> d \<and> d \<le> 31)"
  by code_simp

lemma month_day_bounds:
  assumes "0 \<le> n" and "n \<le> 364"
  shows "1 \<le> fst (month_day n l)" "fst (month_day n l) \<le> 12"
    "1 \<le> snd (month_day n l)" "snd (month_day n l) \<le> 31"
proof -
  have n: "n \<in> set [0..364]" using assms by simp
  have l: "l \<in> set [False, True]" by auto
  have "case month_day n l of (m, d) \<Rightarrow> 1 \<le> m \<and> m \<le> 12 \<and> 1 \<le> d \<and> d \<le> 31"
    by (rule month_day_table [rule_format, OF n l])
  then show "1 \<le> fst (month_day n l)" "fst (month_day n l) \<le> 12"
    "1 \<le> snd (month_day n l)" "snd (month_day n l) \<le> 31"
    by (auto split: prod.splits)
qed

lemma ord2ymd_bounds:
  assumes "1 \<le> n" and "n \<le> MAXORDINAL"
  shows "1 \<le> fst (ord2ymd n)" "fst (ord2ymd n) \<le> 9999"
    "1 \<le> fst (snd (ord2ymd n))" "fst (snd (ord2ymd n)) \<le> 12"
    "1 \<le> snd (snd (ord2ymd n))" "snd (snd (ord2ymd n)) \<le> 31"
    "364878 \<le> n \<Longrightarrow> 1000 \<le> fst (ord2ymd n)"
proof -
  define n0 where "n0 = n - 1"
  define a where "a = n0 div 146097"
  define r1 where "r1 = n0 mod 146097"
  define b where "b = r1 div 36524"
  define r2 where "r2 = r1 mod 36524"
  define c where "c = r2 div 1461"
  define r3 where "r3 = r2 mod 1461"
  define e where "e = r3 div 365"
  define r where "r = r3 mod 365"
  have n0: "0 \<le> n0" "n0 \<le> 3652058" using assms by (simp_all add: n0_def MAXORDINAL_def)
  have d1: "n0 = 146097 * a + r1" "0 \<le> r1" "r1 < 146097"
    by (simp_all add: a_def r1_def)
  have d2: "r1 = 36524 * b + r2" "0 \<le> r2" "r2 < 36524"
    by (simp_all add: b_def r2_def)
  have d3: "r2 = 1461 * c + r3" "0 \<le> r3" "r3 < 1461"
    by (simp_all add: c_def r3_def)
  have d4: "r3 = 365 * e + r" "0 \<le> r" "r < 365"
    by (simp_all add: e_def r_def)
  have a0: "0 \<le> a" using n0(1) by (simp add: a_def pos_imp_zdiv_nonneg_iff)
  have b0: "0 \<le> b" using d1(2) by (simp add: b_def pos_imp_zdiv_nonneg_iff)
  have c0: "0 \<le> c" using d2(2) by (simp add: c_def pos_imp_zdiv_nonneg_iff)
  have e0: "0 \<le> e" using d3(2) by (simp add: e_def pos_imp_zdiv_nonneg_iff)
  have u: "a \<le> 24" "b \<le> 4" "c \<le> 24" "e \<le> 4"
    using n0 d1 d2 d3 d4 by linarith+
  have Y: "400 * a + 100 * b + 4 * c + e \<le> 9998"
  proof (cases "a \<le> 23")
    case True
    then show ?thesis using u by linarith
  next
    case False
    then have a: "a = 24" using u(1) by linarith
    then have b3: "b \<le> 3" using n0 d1 d2 by linarith
    show ?thesis
    proof (cases "b \<le> 2")
      case True
      then show ?thesis using a u by linarith
    next
      case False
      then have b: "b = 3" using b3 by linarith
      show ?thesis
      proof (cases "c \<le> 23")
        case True
        then show ?thesis using a b u by linarith
      next
        case False
        then have c: "c = 24" using u(3) by linarith
        have "e \<le> 2" using n0 d1 d2 d3 d4 a b c by linarith
        then show ?thesis using a b c by linarith
      qed
    qed
  qed
  have o: "ord2ymd n =
     (if e = 4 \<or> b = 4 then (a * 400 + 1 + b * 100 + c * 4 + e - 1, 12, 31)
      else (a * 400 + 1 + b * 100 + c * 4 + e,
            month_day r (e = 3 \<and> (c \<noteq> 24 \<or> b = 3))))"
    by (simp add: ord2ymd_def Let_def n0_def a_def r1_def b_def r2_def c_def r3_def e_def r_def)
  have md: "1 \<le> fst (month_day r l)" "fst (month_day r l) \<le> 12"
    "1 \<le> snd (month_day r l)" "snd (month_day r l) \<le> 31" for l
    using month_day_bounds [of r l] d4(2,3) by simp_all
  show "1 \<le> fst (ord2ymd n)" using a0 b0 c0 e0 by (auto simp: o)
  show "fst (ord2ymd n) \<le> 9999" using Y by (auto simp: o)
  show "1 \<le> fst (snd (ord2ymd n))" using md(1) by (simp add: o)
  show "fst (snd (ord2ymd n)) \<le> 12" using md(2) by (simp add: o)
  show "1 \<le> snd (snd (ord2ymd n))" using md(3) by (simp add: o)
  show "snd (snd (ord2ymd n)) \<le> 31" using md(4) by (simp add: o)
  show "1000 \<le> fst (ord2ymd n)" if "364878 \<le> n"
  proof -
    have l: "364877 \<le> n0" using that by (simp add: n0_def)
    have a2: "2 \<le> a" using l d1 by linarith
    have "999 \<le> 400 * a + 100 * b + 4 * c + e \<and>
          (e = 4 \<or> b = 4 \<longrightarrow> 1000 \<le> 400 * a + 100 * b + 4 * c + e)"
    proof (cases "3 \<le> a")
      case True
      then show ?thesis using b0 c0 e0 by linarith
    next
      case False
      then have a: "a = 2" using a2 by linarith
      then have b1: "1 \<le> b" using l d1 d2 by linarith
      show ?thesis
      proof (cases "2 \<le> b")
        case True
        then show ?thesis using a c0 e0 by linarith
      next
        case False
        then have b: "b = 1" using b1 by linarith
        have c: "24 \<le> c" using l d1 d2 d3 a b by linarith
        have e: "3 \<le> e" using l d1 d2 d3 d4 a b c u(3) by linarith
        show ?thesis using a b c e by linarith
      qed
    qed
    then show ?thesis by (auto simp: o)
  qed
qed

lemma digit_char_digit: "digit_char d \<in> set ''0123456789''"
proof -
  have "d mod 10 < length ''0123456789''" by simp
  then show ?thesis unfolding digit_char_def by (rule nth_mem)
qed

lemma decimal_digits: "set (decimal n) \<subseteq> set ''0123456789''"
proof (induction n rule: decimal.induct)
  case (1 n)
  show ?case
  proof (cases "n < 10")
    case True
    then show ?thesis using digit_char_digit [of n] by (simp add: decimal.simps [of n])
  next
    case False
    then show ?thesis
      using 1 digit_char_digit [of "n mod 10"] by (simp add: decimal.simps [of n])
  qed
qed

lemma decimal_length: "0 < k \<Longrightarrow> n < 10 ^ k \<Longrightarrow> length (decimal n) \<le> k"
proof (induction k arbitrary: n)
  case 0
  then show ?case by simp
next
  case (Suc k)
  show ?case
  proof (cases "n < 10")
    case True
    then show ?thesis by (simp add: decimal.simps [of n])
  next
    case False
    then have k: "0 < k" using Suc.prems(2) by (cases k) simp_all
    have "n div 10 < 10 ^ k" using Suc.prems(2) by (simp add: less_mult_imp_div_less)
    from Suc.IH [OF k this] False show ?thesis by (simp add: decimal.simps [of n])
  qed
qed

lemma decimal_nonempty: "decimal n \<noteq> []"
  by (simp add: decimal.simps [of n])

lemma decimal_length_ge: "10 ^ k \<le> n \<Longrightarrow> k < length (decimal n)"
proof (induction k arbitrary: n)
  case 0
  then show ?case using decimal_nonempty [of n] by (cases "decimal n") simp_all
next
  case (Suc k)
  have a: "(10::nat) * 1 \<le> 10 * 10 ^ k" by (intro mult_le_mono2) simp
  have b: "(10::nat) * 10 ^ k \<le> n" using Suc.prems by simp
  from order_trans [OF a b] have n: "\<not> n < 10" by simp
  have "10 ^ k \<le> n div 10" using Suc.prems by (simp add: less_eq_div_iff_mult_less_eq)
  from Suc.IH [OF this] n show ?case by (simp add: decimal.simps [of n])
qed

lemma decimal_four_digits:
  assumes "1000 \<le> n" and "n \<le> 9999"
  shows "length (decimal n) = 4"
proof -
  have "10 ^ 3 \<le> n" using assms(1) by simp
  then have "3 < length (decimal n)" by (rule decimal_length_ge)
  moreover have "n < 10 ^ 4" using assms(2) by simp
  then have "length (decimal n) \<le> 4" by (intro decimal_length) simp_all
  ultimately show ?thesis by linarith
qed

lemma zero_pad_shape:
  assumes "0 < w" and "0 \<le> x" and "x < 10 ^ w"
  shows "length (zero_pad w x) = w" and "set (zero_pad w x) \<subseteq> set ''0123456789''"
proof -
  have "nat x < 10 ^ w" using assms(2,3) by (simp add: nat_less_iff)
  then have "length (decimal (nat x)) \<le> w" using assms(1) by (intro decimal_length)
  then show "length (zero_pad w x) = w" by (simp add: zero_pad_def Let_def)
  show "set (zero_pad w x) \<subseteq> set ''0123456789''"
    using decimal_digits [of "nat x"] by (auto simp: zero_pad_def Let_def)
qed

lemma matches_two_digits:
  assumes "length ds = 2" and "set ds \<subseteq> set ''0123456789''" and "matches_pattern ps cs"
  shows "matches_pattern (CHR ''#'' # CHR ''#'' # ps) (ds @ cs)"
proof -
  from assms(1) obtain x y where "ds = [x, y]"
    by (cases ds; cases "tl ds") auto
  with assms(2,3) show ?thesis by simp
qed

lemma matches_four_digits:
  assumes "length ds = 4" and "set ds \<subseteq> set ''0123456789''" and "matches_pattern ps cs"
  shows "matches_pattern (CHR ''#'' # CHR ''#'' # CHR ''#'' # CHR ''#'' # ps) (ds @ cs)"
proof -
  from assms(1) obtain x y u v where "ds = [x, y, u, v]"
    by (auto simp: length_Suc_conv numeral_eq_Suc)
  with assms(2,3) show ?thesis by simp
qed

lemma default_name_pattern:
  assumes "valid_datetime now" and "364878 \<le> ordinal now"
  shows "matches_pattern ''repository-####-##-##-##-##-##''
           (''repository-'' @ fmt_Y now @ ''-'' @ fmt_m now @ ''-'' @ fmt_d now @ ''-'' @
            fmt_H now @ ''-'' @ fmt_M now @ ''-'' @ fmt_S now)"
proof -
  from assms(1) have v: "1 \<le> ordinal now" "ordinal now \<le> MAXORDINAL"
    "0 \<le> hour now" "hour now < 24" "0 \<le> minute now" "minute now < 60"
    "0 \<le> second now" "second now < 60"
    by (simp_all add: valid_datetime_def)
  note o = ord2ymd_bounds [OF v(1,2)]
  have "1000 \<le> nat (fst (ord2ymd (ordinal now)))" "nat (fst (ord2ymd (ordinal now))) \<le> 9999"
    using o(2) o(7) [OF assms(2)] by linarith+
  then have "length (fmt_Y now) = 4"
    unfolding fmt_Y_def by (rule decimal_four_digits)
  moreover have "set (fmt_Y now) \<subseteq> set ''0123456789''"
    unfolding fmt_Y_def by (rule decimal_digits)
  ultimately have Y: "length (fmt_Y now) = 4" "set (fmt_Y now) \<subseteq> set ''0123456789''" .
  have m: "length (fmt_m now) = 2" "set (fmt_m now) \<subseteq> set ''0123456789''"
    unfolding fmt_m_def using o(3,4) by (intro zero_pad_shape; simp)+
  have d: "length (fmt_d now) = 2" "set (fmt_d now) \<subseteq> set ''0123456789''"
    unfolding fmt_d_def using o(5,6) by (intro zero_pad_shape; simp)+
  have H: "length (fmt_H now) = 2" "set (fmt_H now) \<subseteq> set ''0123456789''"
    unfolding fmt_H_def using v(3,4) by (intro zero_pad_shape; simp)+
  have M: "length (fmt_M now) = 2" "set (fmt_M now) \<subseteq> set ''0123456789''"
    unfolding fmt_M_def using v(5,6) by (intro zero_pad_shape; simp)+
  have S: "length (fmt_S now) = 2" "set (fmt_S now) \<subseteq> set ''0123456789''"
    unfolding fmt_S_def using v(7,8) by (intro zero_pad_shape; simp)+
  have 1: "matches_pattern ''##'' (fmt_S now @ [])"
    by (rule matches_two_digits [OF S]) simp
  have 2: "matches_pattern ''##-##'' (fmt_M now @ ''-'' @ fmt_S now)"
    by (rule matches_two_digits [OF M]) (use 1 in simp)
  have 3: "matches_pattern ''##-##-##'' (fmt_H now @ ''-'' @ fmt_M now @ ''-'' @ fmt_S now)"
    by (rule matches_two_digits [OF H]) (use 2 in simp)
  have 4: "matches_pattern ''##-##-##-##''
      (fmt_d now @ ''-'' @ fmt_H now @ ''-'' @ fmt_M now @ ''-'' @ fmt_S now)"
    by (rule matches_two_digits [OF d]) (use 3 in simp)
  have 5: "matches_pattern ''##-##-##-##-##''
      (fmt_m now @ ''-'' @ fmt_d now @ ''-'' @ fmt_H now @ ''-'' @ fmt_M now @ ''-'' @ fmt_S now)"
    by (rule matches_two_digits [OF m]) (use 4 in simp)
  have 6: "matches_pattern ''####-##-##-##-##-##''
      (fmt_Y now @ ''-'' @ fmt_m now @ ''-'' @ fmt_d now @ ''-'' @ fmt_H now @ ''-'' @
       fmt_M now @ ''-'' @ fmt_S now)"
    by (rule matches_four_digits [OF Y]) (use 5 in simp)
  then show ?thesis by simp
qed

section \<open>The example run\<close>

lemma example_valid: "valid_datetime example_now"
  by (simp add: valid_datetime_def example_now_def MAXORDINAL_def)

lemma example_schedule:
  "generate_commit_dates example_args example_now example_rng = Inr example_dates"
  by code_simp

lemma example_default_name:
  "''repository-'' @ fmt_Y example_now @ ''-'' @ fmt_m example_now @ ''-'' @
   fmt_d example_now @ ''-'' @ fmt_H example_now @ ''-'' @ fmt_M example_now @ ''-'' @
   fmt_S example_now = ''repository-2024-03-15-10-11-12''"
  by code_simp

lemma weekend_schedule:
  "generate_commit_dates weekend_args example_now example_rng = Inr weekend_dates"
  by code_simp

lemma weekend_schedule_flag_off:
  "generate_commit_dates (weekend_args\<lparr>no_weekends := False\<rparr>) example_now example_rng =
     Inr (weekend_dates @
          [\<lparr>ordinal = 738962, hour = 20, minute = 0, second = 12, microsecond = 13\<rparr>])"
  by code_simp

lemma full_schedule:
  "generate_commit_dates full_args example_now (full_raw, 0) = Inr full_dates"
  by code_simp

lemma empty_schedule:
  "generate_commit_dates (example_args\<lparr>frequency := 0\<rparr>) example_now example_rng = Inr []"
  by code_simp

lemma example_repo_init:
  "git_repository_init example_args example_now example_rng = Inr example_repo"
  by code_simp

section \<open>Properties of the synthesizer\<close>

text \<open>
  Claim C1. Every commit date the synthesizer produces lies in the half-open window from
  the anchor minus \<open>days_before\<close> days (included) to the anchor plus \<open>days_after\<close> days
  (excluded), the anchor being the current time with hour 20 and minute 0; and each date
  is the anchor plus \<open>n\<close> days and \<open>m\<close> minutes, as the library adds them, for some
  \<open>n\<close> in [-days_before, days_after) and some \<open>m\<close> with 0 \<le> m < 20.
\<close>
theorem commit_dates_in_window:
  assumes "valid_datetime now" and "generate_commit_dates a now g = Inr dates"
    and "d \<in> set dates"
  shows "dt_le (on_day (anchor now) (- days_before a)) d \<and>
         dt_less d (on_day (anchor now) (days_after a)) \<and>
         (\<exists>n m. - days_before a \<le> n \<and> n < days_after a \<and> 0 \<le> m \<and> m < 20 \<and>
            dt_add (anchor now) \<lparr>days = n, seconds = m * 60, microseconds = 0\<rparr> = Inr d)"
proof -
  from generate_commit_dates_members [OF assms]
  obtain n m where n: "- days_before a \<le> n" "n < days_after a"
    and m: "0 \<le> m" "m < max 1 (min 20 (max_commits a))"
    and d: "d = at_minute (on_day (anchor now) n) m"
    and r: "0 < ordinal now + n" "ordinal now + n \<le> MAXORDINAL"
    by blast
  from m(2) have m20: "m < 20" by simp
  have ev: "evening (anchor now)" using assms(1) by (rule evening_anchor)
  have "dt_add (anchor now) \<lparr>days = n, seconds = m * 60, microseconds = 0\<rparr> = Inr d"
    using dt_add_evening [OF ev m(1), of n] m20 r by (simp add: d ordinal_anchor)
  then have third: "\<exists>n m. - days_before a \<le> n \<and> n < days_after a \<and> 0 \<le> m \<and> m < 20 \<and>
            dt_add (anchor now) \<lparr>days = n, seconds = m * 60, microseconds = 0\<rparr> = Inr d"
    using n m(1) m20 by blast
  have od: "ordinal d = ordinal now + n"
    by (simp add: d ordinal_at_minute ordinal_on_day ordinal_anchor)
  have upper: "dt_less d (on_day (anchor now) (days_after a))"
    by (rule dt_less_ordinal) (simp add: od ordinal_on_day ordinal_anchor n(2))
  have lower: "dt_le (on_day (anchor now) (- days_before a)) d"
  proof (cases "- days_before a < n")
    case True
    then have "dt_less (on_day (anchor now) (- days_before a)) d"
      by (intro dt_less_ordinal) (simp add: od ordinal_on_day ordinal_anchor)
    then show ?thesis by (simp add: dt_le_def)
  next
    case False
    with n(1) have e: "n = - days_before a" by simp
    show ?thesis
    proof (cases "m = 0")
      case True
      then have "d = on_day (anchor now) (- days_before a)"
        using d e at_minute_same [OF evening_on_day [OF ev]] by simp
      then show ?thesis by (simp add: dt_le_def)
    next
      case False
      with m(1) have "0 < m" by simp
      then have "dt_less (at_minute (on_day (anchor now) n) 0) (at_minute (on_day (anchor now) n) m)"
        by (rule dt_less_minutes)
      then have "dt_less (on_day (anchor now) (- days_before a)) d"
        using at_minute_same [OF evening_on_day [OF ev]] by (simp add: d e)
      then show ?thesis by (simp add: dt_le_def)
    qed
  qed
  from lower upper third show ?thesis by blast
qed

theorem commit_dates_in_window_witness:
  "valid_datetime example_now \<and>
   generate_commit_dates example_args example_now example_rng = Inr example_dates \<and>
   \<lparr>ordinal = 738958, hour = 20, minute = 1, second = 12, microsecond = 13\<rparr> \<in> set example_dates \<and>
   dt_less \<lparr>ordinal = 738958, hour = 20, minute = 1, second = 12, microsecond = 13\<rparr>
     (on_day (anchor example_now) (days_after example_args))"
proof -
  have h3: "\<lparr>ordinal = 738958, hour = 20, minute = 1, second = 12, microsecond = 13\<rparr> \<in> set example_dates"
    by (simp add: example_dates_def)
  from commit_dates_in_window [OF example_valid example_schedule h3] example_valid example_schedule h3
  show ?thesis by blast
qed

text \<open>
  Claim C2. For an included day of the run, the number of commit dates the returned
  schedule has on that day is the value \<open>c\<close> that \<^verbatim>\<open>randint(1, B)\<close> returns, where the
  bound \<open>B\<close> is what the call of \<^verbatim>\<open>_contributions_per_day\<close> returns: a draw from
  [1, max 1 (min 20 max_commits)] of its own, made from the raw output after the
  inclusion draw, while \<open>c\<close> is made from the raw output after that. The day consumes
  these three raw outputs and no other, and the next day starts behind them. Each value
  of either range comes from exactly one residue of the raw output, which is what
  uniform means for this generator.
\<close>

theorem schedule_day_count_double_draw:
  assumes "valid_datetime now" and "generate_commit_dates a now g = Inr dates"
    and "0 \<le> k" and "k < days_before a + days_after a"
    and "day = candidate_day a now k" and "gk = rng_at_day a now k g"
    and "\<not> no_weekends a \<or> weekday day < 5" and "inclusion_draw gk < frequency a"
  shows "\<exists>g1 B g2 c g3.
           randint 0 100 gk = Inr (inclusion_draw gk, g1) \<and>
           contributions_per_day a g1 = Inr (B, g2) \<and> randint 1 B g2 = Inr (c, g3) \<and>
           B = randint_value 1 (max 1 (min 20 (max_commits a))) (fst gk (Suc (snd gk))) \<and>
           c = randint_value 1 B (fst gk (Suc (Suc (snd gk)))) \<and>
           1 \<le> B \<and> B \<le> max 1 (min 20 (max_commits a)) \<and> 1 \<le> c \<and> c \<le> B \<and>
           bij_betw (randint_value 1 (max 1 (min 20 (max_commits a))))
             {0..<nat (max 1 (min 20 (max_commits a)))} {1..max 1 (min 20 (max_commits a))} \<and>
           bij_betw (randint_value 1 B) {0..<nat B} {1..B} \<and>
           dates_on dates (ordinal day) = map (at_minute day) (range_py c) \<and>
           int (length (dates_on dates (ordinal day))) = c \<and>
           day_body a day gk acc = Inr (acc @ dates_on dates (ordinal day), g3) \<and>
           g1 = (fst gk, Suc (snd gk)) \<and> g2 = (fst gk, Suc (Suc (snd gk))) \<and>
           g3 = (fst gk, Suc (Suc (Suc (snd gk)))) \<and>
           rng_at_day a now (k + 1) g = g3"
proof -
  let ?K = "max 1 (min 20 (max_commits a))"
  let ?B = "bound_draw a gk"
  let ?c = "count_draw a gk"
  let ?g1 = "(fst gk, Suc (snd gk))"
  let ?g2 = "(fst gk, Suc (Suc (snd gk)))"
  let ?g3 = "(fst gk, Suc (Suc (Suc (snd gk))))"
  have ev: "evening day" unfolding assms(5) by (rule evening_candidate_day [OF assms(1)])
  have rg: "0 < ordinal day" "ordinal day \<le> MAXORDINAL"
    unfolding assms(5) by (rule candidate_day_in_range [OF assms(1-4)])+
  have 0: "randint 0 100 gk = Inr (inclusion_draw gk, ?g1)"
    by (simp add: randint_ok inclusion_draw_def)
  have 1: "contributions_per_day a ?g1 = Inr (?B, ?g2)"
    by (simp add: contributions_per_day_def randint_ok bound_draw_def)
  have 2: "randint 1 ?B ?g2 = Inr (?c, ?g3)"
    by (simp add: randint_ok bound_draw_bounds count_draw_def)
  have 3: "?B = randint_value 1 ?K (fst gk (Suc (snd gk)))" by (simp add: bound_draw_def)
  have 4: "?c = randint_value 1 ?B (fst gk (Suc (Suc (snd gk))))" by (simp add: count_draw_def)
  have 5: "bij_betw (randint_value 1 ?K) {0..<nat ?K} {1..?K}"
    using randint_value_bij [of 1 ?K] by simp
  have 6: "bij_betw (randint_value 1 ?B) {0..<nat ?B} {1..?B}"
    using randint_value_bij [of 1 ?B] bound_draw_bounds(1) [of a gk] by simp
  have s: "dates_on dates (ordinal day) = day_dates a day gk"
    unfolding assms(5,6) by (rule schedule_on_candidate_day [OF assms(1-4)])
  have 7: "dates_on dates (ordinal day) = map (at_minute day) (range_py ?c)"
    using assms(7,8) by (simp add: s day_dates_cases [OF ev rg])
  have 8: "int (length (dates_on dates (ordinal day))) = ?c"
    using count_draw_bounds(1) [of a gk] by (simp add: 7 length_range_py)
  have 9: "day_body a day gk acc = Inr (acc @ dates_on dates (ordinal day), ?g3)"
    using assms(7,8) by (simp add: 7 day_body_eq [OF ev rg])
  have "rng_at_day a now (k + 1) g = rng_after_day a day gk"
    unfolding assms(5,6) by (rule rng_at_day_next [OF assms(3)])
  then have 10: "rng_at_day a now (k + 1) g = ?g3"
    by (simp add: rng_after_included_day [OF ev rg assms(7,8)])
  from 0 1 2 3 4 5 6 7 8 9 10 bound_draw_bounds [of a gk] count_draw_bounds [of a gk]
  show ?thesis by blast
qed

theorem schedule_day_count_double_draw_witness:
  "valid_datetime example_now \<and>
   generate_commit_dates example_args example_now example_rng = Inr example_dates \<and>
   (0::int) \<le> 1 \<and> 1 < days_before example_args + days_after example_args \<and>
   ordinal (candidate_day example_args example_now 1) = 738958 \<and>
   snd (rng_at_day example_args example_now 1 example_rng) = 3 \<and>
   weekday (candidate_day example_args example_now 1) < 5 \<and>
   inclusion_draw (rng_at_day example_args example_now 1 example_rng) < frequency example_args \<and>
   bound_draw example_args (rng_at_day example_args example_now 1 example_rng) = 2 \<and>
   count_draw example_args (rng_at_day example_args example_now 1 example_rng) = 2 \<and>
   dates_on example_dates 738958 =
     [\<lparr>ordinal = 738958, hour = 20, minute = 0, second = 12, microsecond = 13\<rparr>,
      \<lparr>ordinal = 738958, hour = 20, minute = 1, second = 12, microsecond = 13\<rparr>] \<and>
   (\<exists>g1 B g2 c g3.
      randint 0 100 (rng_at_day example_args example_now 1 example_rng) =
        Inr (inclusion_draw (rng_at_day example_args example_now 1 example_rng), g1) \<and>
      contributions_per_day example_args g1 = Inr (B, g2) \<and> randint 1 B g2 = Inr (c, g3) \<and>
      1 \<le> c \<and> c \<le> B \<and>
      int (length (dates_on example_dates (ordinal (candidate_day example_args example_now 1)))) = c \<and>
      rng_at_day example_args example_now (1 + 1) example_rng = g3)"
proof -
  have h3: "(0::int) \<le> 1" by simp
  have h4: "1 < days_before example_args + days_after example_args"
    by (simp add: example_args_def)
  have o: "ordinal (candidate_day example_args example_now 1) = 738958" by code_simp
  have p: "snd (rng_at_day example_args example_now 1 example_rng) = 3" by code_simp
  have h7: "weekday (candidate_day example_args example_now 1) < 5" by code_simp
  then have h7': "\<not> no_weekends example_args \<or> weekday (candidate_day example_args example_now 1) < 5"
    by (rule disjI2)
  have h8: "inclusion_draw (rng_at_day example_args example_now 1 example_rng) < frequency example_args"
    by code_simp
  have b: "bound_draw example_args (rng_at_day example_args example_now 1 example_rng) = 2"
    by code_simp
  have c: "count_draw example_args (rng_at_day example_args example_now 1 example_rng) = 2"
    by code_simp
  have d: "dates_on example_dates 738958 =
     [\<lparr>ordinal = 738958, hour = 20, minute = 0, second = 12, microsecond = 13\<rparr>,
      \<lparr>ordinal = 738958, hour = 20, minute = 1, second = 12, microsecond = 13\<rparr>]"
    by code_simp
  from schedule_day_count_double_draw [OF example_valid example_schedule h3 h4 refl refl h7' h8,
      of "[]"]
    example_valid example_schedule h3 h4 o p h7 h8 b c d
  show ?thesis by blast
qed

text \<open>
  Claim C3. For an included day of the run, the returned schedule has at least one
  commit date on that day and at most max 1 (min 20 max_commits) of them, hence never more
  than 20, whatever \<open>max_commits\<close> is (zero, negative or above 20); and no calendar day
  at all has more than that many.
\<close>

theorem schedule_included_day_commit_count:
  assumes "valid_datetime now" and "generate_commit_dates a now g = Inr dates"
    and "0 \<le> k" and "k < days_before a + days_after a"
    and "day = candidate_day a now k" and "gk = rng_at_day a now k g"
    and "\<not> no_weekends a \<or> weekday day < 5" and "inclusion_draw gk < frequency a"
  shows "1 \<le> int (length (dates_on dates (ordinal day))) \<and>
         int (length (dates_on dates (ordinal day))) \<le> max 1 (min 20 (max_commits a)) \<and>
         length (dates_on dates (ordinal day)) \<le> 20 \<and>
         int (length (dates_on dates d)) \<le> max 1 (min 20 (max_commits a)) \<and>
         length (dates_on dates d) \<le> 20 \<and>
         (\<exists>g'. day_body a day gk acc = Inr (acc @ dates_on dates (ordinal day), g'))"
proof -
  let ?c = "count_draw a gk"
  have ev: "evening day" unfolding assms(5) by (rule evening_candidate_day [OF assms(1)])
  have rg: "0 < ordinal day" "ordinal day \<le> MAXORDINAL"
    unfolding assms(5) by (rule candidate_day_in_range [OF assms(1-4)])+
  have b: "1 \<le> ?c" "?c \<le> max 1 (min 20 (max_commits a))"
    using count_draw_bounds [of a gk] bound_draw_bounds(2) [of a gk] by linarith+
  have s: "dates_on dates (ordinal day) = day_dates a day gk"
    unfolding assms(5,6) by (rule schedule_on_candidate_day [OF assms(1-4)])
  have e: "dates_on dates (ordinal day) = map (at_minute day) (range_py ?c)"
    using assms(7,8) by (simp add: s day_dates_cases [OF ev rg])
  have l: "int (length (dates_on dates (ordinal day))) = ?c"
    using b(1) by (simp add: e length_range_py)
  have 1: "1 \<le> int (length (dates_on dates (ordinal day)))"
    "int (length (dates_on dates (ordinal day))) \<le> max 1 (min 20 (max_commits a))"
    using b l by simp_all
  have 2: "length (dates_on dates (ordinal day)) \<le> 20" using 1(2) by linarith
  have 3: "int (length (dates_on dates d)) \<le> max 1 (min 20 (max_commits a))"
  proof (cases "ordinal now - days_before a \<le> d \<and> d < ordinal now + days_after a")
    case True
    define j where "j = d - ordinal now + days_before a"
    have j: "0 \<le> j" "j < days_before a + days_after a" using True by (simp_all add: j_def)
    have o: "ordinal (candidate_day a now j) = d"
      by (simp add: ordinal_candidate_day j_def)
    have "dates_on dates d = day_dates a (candidate_day a now j) (rng_at_day a now j g)"
      using schedule_on_candidate_day [OF assms(1,2) j] by (simp add: o)
    then show ?thesis
      using day_dates_length [OF evening_candidate_day [OF assms(1)]
          candidate_day_in_range [OF assms(1,2) j], of a "rng_at_day a now j g"]
      by simp
  next
    case False
    then show ?thesis by (simp add: schedule_off_candidate_days [OF assms(1,2)])
  qed
  then have 4: "length (dates_on dates d) \<le> 20" by linarith
  have 5: "\<exists>g'. day_body a day gk acc = Inr (acc @ dates_on dates (ordinal day), g')"
    using assms(7,8) by (simp add: e day_body_eq [OF ev rg])
  from 1 2 3 4 5 show ?thesis by blast
qed

theorem schedule_included_day_commit_count_witness:
  "valid_datetime example_now \<and>
   generate_commit_dates example_args example_now example_rng = Inr example_dates \<and>
   (0::int) \<le> 1 \<and> 1 < days_before example_args + days_after example_args \<and>
   ordinal (candidate_day example_args example_now 1) = 738958 \<and>
   weekday (candidate_day example_args example_now 1) < 5 \<and>
   inclusion_draw (rng_at_day example_args example_now 1 example_rng) < frequency example_args \<and>
   length (dates_on example_dates 738958) = 2 \<and>
   1 \<le> int (length (dates_on example_dates (ordinal (candidate_day example_args example_now 1)))) \<and>
   int (length (dates_on example_dates (ordinal (candidate_day example_args example_now 1))))
     \<le> max 1 (min 20 (max_commits example_args)) \<and>
   generate_commit_dates (example_args\<lparr>max_commits := - 5\<rparr>) example_now example_rng =
     Inr [\<lparr>ordinal = 738957, hour = 20, minute = 0, second = 12, microsecond = 13\<rparr>,
          \<lparr>ordinal = 738958, hour = 20, minute = 0, second = 12, microsecond = 13\<rparr>,
          \<lparr>ordinal = 738960, hour = 20, minute = 0, second = 12, microsecond = 13\<rparr>] \<and>
   inclusion_draw (rng_at_day (example_args\<lparr>max_commits := - 5\<rparr>) example_now 0 example_rng)
     < frequency (example_args\<lparr>max_commits := - 5\<rparr>) \<and>
   1 \<le> int (length (dates_on
     [\<lparr>ordinal = 738957, hour = 20, minute = 0, second = 12, microsecond = 13\<rparr>,
      \<lparr>ordinal = 738958, hour = 20, minute = 0, second = 12, microsecond = 13\<rparr>,
      \<lparr>ordinal = 738960, hour = 20, minute = 0, second = 12, microsecond = 13\<rparr>]
     (ordinal (candidate_day (example_args\<lparr>max_commits := - 5\<rparr>) example_now 0))))"
proof -
  have h3: "(0::int) \<le> 1" by simp
  have h4: "1 < days_before example_args + days_after example_args"
    by (simp add: example_args_def)
  have o: "ordinal (candidate_day example_args example_now 1) = 738958" by code_simp
  have h7: "weekday (candidate_day example_args example_now 1) < 5" by code_simp
  then have h7': "\<not> no_weekends example_args \<or> weekday (candidate_day example_args example_now 1) < 5"
    by (rule disjI2)
  have h8: "inclusion_draw (rng_at_day example_args example_now 1 example_rng) < frequency example_args"
    by code_simp
  have l: "length (dates_on example_dates 738958) = 2" by code_simp
  have s: "generate_commit_dates (example_args\<lparr>max_commits := - 5\<rparr>) example_now example_rng =
     Inr [\<lparr>ordinal = 738957, hour = 20, minute = 0, second = 12, microsecond = 13\<rparr>,
          \<lparr>ordinal = 738958, hour = 20, minute = 0, second = 12, microsecond = 13\<rparr>,
          \<lparr>ordinal = 738960, hour = 20, minute = 0, second = 12, microsecond = 13\<rparr>]"
    by code_simp
  have k3: "(0::int) \<le> 0" by simp
  have k4: "0 < days_before (example_args\<lparr>max_commits := - 5\<rparr>) +
      days_after (example_args\<lparr>max_commits := - 5\<rparr>)"
    by (simp add: example_args_def)
  have k7: "\<not> no_weekends (example_args\<lparr>max_commits := - 5\<rparr>) \<or>
      weekday (candidate_day (example_args\<lparr>max_commits := - 5\<rparr>) example_now 0) < 5"
    by code_simp
  have k8: "inclusion_draw (rng_at_day (example_args\<lparr>max_commits := - 5\<rparr>) example_now 0 example_rng)
     < frequency (example_args\<lparr>max_commits := - 5\<rparr>)"
    by code_simp
  from schedule_included_day_commit_count [OF example_valid example_schedule h3 h4 refl refl h7' h8,
      of 0 "[]"]
    schedule_included_day_commit_count [OF example_valid s k3 k4 refl refl k7 k8, of 0 "[]"]
    example_valid example_schedule h3 h4 o h7 h8 l s k8
  show ?thesis by blast
qed

text \<open>
  Claim C4. A candidate day of the run that is not skipped as a weekend has commit dates
  in the returned schedule exactly when its draw from [0, 100] is below \<open>frequency\<close>.
  With frequency 0 the schedule is empty (and one is returned whenever the window lies
  inside the calendar). With frequency 100 the day is missing from the schedule exactly
  when its draw is 100: one of the 101 values of the draw.
\<close>

theorem schedule_day_inclusion_rule:
  assumes "valid_datetime now" and "generate_commit_dates a now g = Inr dates"
    and "0 \<le> k" and "k < days_before a + days_after a"
    and "day = candidate_day a now k" and "gk = rng_at_day a now k g"
    and "\<not> no_weekends a \<or> weekday day < 5"
  shows "randint 0 100 gk = Inr (inclusion_draw gk, (fst gk, Suc (snd gk))) \<and>
         0 \<le> inclusion_draw gk \<and> inclusion_draw gk \<le> 100 \<and>
         (dates_on dates (ordinal day) \<noteq> []) = (inclusion_draw gk < frequency a) \<and>
         (\<exists>t. t \<in> set dates \<and> ordinal t = ordinal day) = (inclusion_draw gk < frequency a) \<and>
         (frequency a = 0 \<longrightarrow> dates = []) \<and>
         (frequency a = 100 \<longrightarrow>
            (dates_on dates (ordinal day) = []) = (inclusion_draw gk = 100)) \<and>
         (day_dates a day gk \<noteq> []) = (inclusion_draw gk < frequency a) \<and>
         {r. r \<le> 100 \<and> day_dates a day (next_raw r gk) \<noteq> []} =
           {r. r \<le> 100 \<and> int r < frequency a} \<and>
         (\<forall>dates'. generate_commit_dates (a\<lparr>frequency := 0\<rparr>) now g = Inr dates' \<longrightarrow>
            dates' = []) \<and>
         (window_in_calendar a now \<longrightarrow>
            generate_commit_dates (a\<lparr>frequency := 0\<rparr>) now g = Inr []) \<and>
         {r. r \<le> 100 \<and> day_dates (a\<lparr>frequency := 100\<rparr>) day (next_raw r gk) = []} = {100} \<and>
         card {r. r \<le> 100 \<and> day_dates (a\<lparr>frequency := 100\<rparr>) day (next_raw r gk) = []} = 1 \<and>
         card {r::nat. r \<le> 100} = 101 \<and>
         real (card {r. r \<le> 100 \<and> day_dates (a\<lparr>frequency := 100\<rparr>) day (next_raw r gk) = []}) /
           real (card {r::nat. r \<le> 100}) = 1 / 101"
proof -
  have ev: "evening day" unfolding assms(5) by (rule evening_candidate_day [OF assms(1)])
  have rg: "0 < ordinal day" "ordinal day \<le> MAXORDINAL"
    unfolding assms(5) by (rule candidate_day_in_range [OF assms(1-4)])+
  have s: "dates_on dates (ordinal day) = day_dates a day gk"
    unfolding assms(5,6) by (rule schedule_on_candidate_day [OF assms(1-4)])
  note d = day_inclusion_rule [OF ev rg assms(7,1), of gk]
  note d' = day_inclusion_rule [OF ev rg assms(7,1), of g]
  have i: "(dates_on dates (ordinal day) \<noteq> []) = (inclusion_draw gk < frequency a)"
    using d by (simp add: s)
  have m: "(\<exists>t. t \<in> set dates \<and> ordinal t = ordinal day) = (dates_on dates (ordinal day) \<noteq> [])"
    by (auto simp: dates_on_def filter_empty_conv)
  have z: "frequency a = 0 \<longrightarrow> dates = []"
  proof
    assume f: "frequency a = 0"
    show "dates = []"
    proof (cases dates)
      case Nil
      then show ?thesis .
    next
      case (Cons t ts)
      then have "t \<in> set dates" by simp
      from generate_commit_dates_members [OF assms(1,2) this] f show ?thesis by simp
    qed
  qed
  have h: "frequency a = 100 \<longrightarrow>
            (dates_on dates (ordinal day) = []) = (inclusion_draw gk = 100)"
    using i inclusion_draw_bounds(2) [of gk] by auto
  from d d' i m z h show ?thesis by simp
qed

theorem schedule_day_inclusion_rule_witness:
  "valid_datetime example_now \<and>
   generate_commit_dates example_args example_now example_rng = Inr example_dates \<and>
   (0::int) \<le> 0 \<and> 0 < days_before example_args + days_after example_args \<and>
   (0::int) \<le> 2 \<and> 2 < days_before example_args + days_after example_args \<and>
   weekday (candidate_day example_args example_now 0) < 5 \<and>
   weekday (candidate_day example_args example_now 2) < 5 \<and>
   ordinal (candidate_day example_args example_now 0) = 738957 \<and>
   ordinal (candidate_day example_args example_now 2) = 738959 \<and>
   inclusion_draw (rng_at_day example_args example_now 0 example_rng) = 5 \<and>
   inclusion_draw (rng_at_day example_args example_now 2 example_rng) = 99 \<and>
   frequency example_args = 80 \<and>
   dates_on example_dates (ordinal (candidate_day example_args example_now 0)) \<noteq> [] \<and>
   dates_on example_dates (ordinal (candidate_day example_args example_now 2)) = [] \<and>
   generate_commit_dates full_args example_now (full_raw, 0) = Inr full_dates \<and>
   frequency full_args = 100 \<and>
   weekday (candidate_day full_args example_now 0) < 5 \<and>
   inclusion_draw (rng_at_day full_args example_now 0 (full_raw, 0)) = 100 \<and>
   dates_on full_dates (ordinal (candidate_day full_args example_now 0)) = [] \<and>
   inclusion_draw (rng_at_day full_args example_now 1 (full_raw, 0)) = 0 \<and>
   dates_on full_dates (ordinal (candidate_day full_args example_now 1)) \<noteq> [] \<and>
   window_in_calendar example_args example_now \<and>
   generate_commit_dates (example_args\<lparr>frequency := 0\<rparr>) example_now example_rng = Inr []"
proof -
  have k0: "(0::int) \<le> 0" and k1: "(0::int) \<le> 1" and k2: "(0::int) \<le> 2" by simp_all
  have K0: "0 < days_before example_args + days_after example_args"
    and K2: "2 < days_before example_args + days_after example_args"
    by (simp_all add: example_args_def)
  have F0: "0 < days_before full_args + days_after full_args"
    and F1: "1 < days_before full_args + days_after full_args"
    by (simp_all add: full_args_def example_args_def)
  have w0: "weekday (candidate_day example_args example_now 0) < 5"
    and w2: "weekday (candidate_day example_args example_now 2) < 5"
    and wf0: "weekday (candidate_day full_args example_now 0) < 5"
    and wf1: "weekday (candidate_day full_args example_now 1) < 5"
    by code_simp+
  have o0: "ordinal (candidate_day example_args example_now 0) = 738957"
    and o2: "ordinal (candidate_day example_args example_now 2) = 738959"
    by code_simp+
  have i0: "inclusion_draw (rng_at_day example_args example_now 0 example_rng) = 5"
    and i2: "inclusion_draw (rng_at_day example_args example_now 2 example_rng) = 99"
    and f0: "inclusion_draw (rng_at_day full_args example_now 0 (full_raw, 0)) = 100"
    and f1: "inclusion_draw (rng_at_day full_args example_now 1 (full_raw, 0)) = 0"
    by code_simp+
  have fr: "frequency example_args = 80" by (simp add: example_args_def)
  have ff: "frequency full_args = 100" by (simp add: full_args_def)
  have w: "window_in_calendar example_args example_now"
    by (simp add: window_in_calendar_def example_args_def example_now_def MAXORDINAL_def)
  note t0 = schedule_day_inclusion_rule [OF example_valid example_schedule k0 K0 refl refl
      disjI2 [OF w0]]
  note t2 = schedule_day_inclusion_rule [OF example_valid example_schedule k2 K2 refl refl
      disjI2 [OF w2]]
  note u0 = schedule_day_inclusion_rule [OF example_valid full_schedule k0 F0 refl refl
      disjI2 [OF wf0]]
  note u1 = schedule_day_inclusion_rule [OF example_valid full_schedule k1 F1 refl refl
      disjI2 [OF wf1]]
  have a0: "dates_on example_dates (ordinal (candidate_day example_args example_now 0)) \<noteq> []"
    using t0 i0 fr by simp
  have a2: "dates_on example_dates (ordinal (candidate_day example_args example_now 2)) = []"
    using t2 i2 fr by simp
  have b0: "dates_on full_dates (ordinal (candidate_day full_args example_now 0)) = []"
    using u0 f0 ff by simp
  have b1: "dates_on full_dates (ordinal (candidate_day full_args example_now 1)) \<noteq> []"
    using u1 f1 ff by simp
  have e: "generate_commit_dates (example_args\<lparr>frequency := 0\<rparr>) example_now example_rng = Inr []"
    using t0 w by blast
  from example_valid example_schedule k0 K0 k2 K2 w0 w2 o0 o2 i0 i2 fr a0 a2 full_schedule ff
    wf0 f0 b0 f1 b1 w e
  show ?thesis by blast
qed

text \<open>
  Claim C5. With the suppress-weekends flag set, no commit date of the schedule falls on
  a day whose weekday index is 5 or more (Monday is 0).
\<close>
theorem no_weekend_commit_dates:
  assumes "valid_datetime now" and "no_weekends a"
    and "generate_commit_dates a now g = Inr dates" and "d \<in> set dates"
  shows "weekday d < 5"
  using generate_commit_dates_members [OF assms(1,3,4)] assms(2) by blast

theorem no_weekend_commit_dates_witness:
  "valid_datetime example_now \<and> no_weekends weekend_args \<and>
   generate_commit_dates weekend_args example_now example_rng = Inr weekend_dates \<and>
   weekday (candidate_day weekend_args example_now 2) = 5 \<and>
   weekday (candidate_day weekend_args example_now 3) = 6 \<and>
   \<lparr>ordinal = 738960, hour = 20, minute = 1, second = 12, microsecond = 13\<rparr> \<in> set weekend_dates \<and>
   weekday \<lparr>ordinal = 738960, hour = 20, minute = 1, second = 12, microsecond = 13\<rparr> < 5 \<and>
   dates_on weekend_dates (ordinal (candidate_day weekend_args example_now 2)) = [] \<and>
   dates_on weekend_dates (ordinal (candidate_day weekend_args example_now 3)) = [] \<and>
   generate_commit_dates (weekend_args\<lparr>no_weekends := False\<rparr>) example_now example_rng =
     Inr (weekend_dates @
          [\<lparr>ordinal = 738962, hour = 20, minute = 0, second = 12, microsecond = 13\<rparr>]) \<and>
   weekday \<lparr>ordinal = 738962, hour = 20, minute = 0, second = 12, microsecond = 13\<rparr> = 6"
proof -
  have h2: "no_weekends weekend_args" by (simp add: weekend_args_def example_args_def)
  have s5: "weekday (candidate_day weekend_args example_now 2) = 5"
    and s6: "weekday (candidate_day weekend_args example_now 3) = 6"
    by code_simp+
  have h4: "\<lparr>ordinal = 738960, hour = 20, minute = 1, second = 12, microsecond = 13\<rparr>
      \<in> set weekend_dates"
    by (simp add: weekend_dates_def)
  have e5: "dates_on weekend_dates (ordinal (candidate_day weekend_args example_now 2)) = []"
    and e6: "dates_on weekend_dates (ordinal (candidate_day weekend_args example_now 3)) = []"
    by code_simp+
  have w6: "weekday \<lparr>ordinal = 738962, hour = 20, minute = 0, second = 12, microsecond = 13\<rparr> = 6"
    by (simp add: weekday_def)
  from no_weekend_commit_dates [OF example_valid h2 weekend_schedule h4] example_valid h2
    weekend_schedule s5 s6 h4 e5 e6 weekend_schedule_flag_off w6
  show ?thesis by blast
qed

text \<open>
  Claim C6, as stated, says that the anchor has its seconds and microseconds zeroed and
  that every commit date therefore has both equal to zero. The call
  \<^verbatim>\<open>replace(hour=20, minute=0)\<close> leaves both fields as they are: in the run below the
  current time has 12 seconds and 13 microseconds, and so have the anchor and all four
  dates.
\<close>
theorem anchor_seconds_counterexample:
  "valid_datetime example_now \<and>
   second (anchor example_now) = 12 \<and> microsecond (anchor example_now) = 13 \<and>
   generate_commit_dates example_args example_now example_rng =
     Inr [\<lparr>ordinal = 738957, hour = 20, minute = 0, second = 12, microsecond = 13\<rparr>,
          \<lparr>ordinal = 738958, hour = 20, minute = 0, second = 12, microsecond = 13\<rparr>,
          \<lparr>ordinal = 738958, hour = 20, minute = 1, second = 12, microsecond = 13\<rparr>,
          \<lparr>ordinal = 738960, hour = 20, minute = 0, second = 12, microsecond = 13\<rparr>]"
proof -
  have "second (anchor example_now) = 12 \<and> microsecond (anchor example_now) = 13"
    by (simp add: anchor_def replace_hour_minute_def example_now_def)
  then show ?thesis using example_valid example_schedule by (simp add: example_dates_def)
qed

text \<open>
  Claim C6, amended. The anchor is the current time with hour 20 and minute 0 and with
  the seconds and microseconds of the current time; every commit date is at hour 20 and
  has the seconds and microseconds of the current time.
\<close>

theorem anchor_keeps_seconds:
  assumes "valid_datetime now" and "generate_commit_dates a now g = Inr dates"
    and "d \<in> set dates"
  shows "hour (anchor now) = 20 \<and> minute (anchor now) = 0 \<and>
         second (anchor now) = second now \<and> microsecond (anchor now) = microsecond now \<and>
         ordinal (anchor now) = ordinal now \<and>
         hour d = 20 \<and> second d = second now \<and> microsecond d = microsecond now"
proof -
  from generate_commit_dates_members [OF assms]
  obtain n m where d: "d = at_minute (on_day (anchor now) n) m" by blast
  show ?thesis
    by (simp add: d at_minute_def on_day_def anchor_def replace_hour_minute_def)
qed

theorem anchor_keeps_seconds_witness:
  "valid_datetime example_now \<and>
   generate_commit_dates example_args example_now example_rng = Inr example_dates \<and>
   \<lparr>ordinal = 738957, hour = 20, minute = 0, second = 12, microsecond = 13\<rparr> \<in> set example_dates \<and>
   second \<lparr>ordinal = 738957, hour = 20, minute = 0, second = 12, microsecond = 13\<rparr> = second example_now"
proof -
  have h3: "\<lparr>ordinal = 738957, hour = 20, minute = 0, second = 12, microsecond = 13\<rparr> \<in> set example_dates"
    by (simp add: example_dates_def)
  from anchor_keeps_seconds [OF example_valid example_schedule h3] example_valid example_schedule h3
  show ?thesis by blast
qed

text \<open>
  Claim C7. The schedule is strictly increasing in time: every date is earlier than each
  date after it in the list, and the calendar days appear in increasing order.
\<close>
theorem schedule_strictly_increasing:
  assumes "valid_datetime now" and "generate_commit_dates a now g = Inr dates"
  shows "sorted_wrt dt_less dates \<and> sorted (map ordinal dates)"
proof -
  from assms obtain g' where l: "days_loop a (on_day (anchor now) (- days_before a))
            (range_py (days_before a + days_after a)) g [] = Inr (dates, g')"
    by (rule generate_commit_dates_Inr)
  have ns: "sorted_wrt (<) (range_py (days_before a + days_after a))"
    unfolding range_py_def by (rule sorted_wrt_upto)
  have s: "sorted_wrt dt_less dates"
    by (rule days_loop_sorted [OF evening_on_day [OF evening_anchor [OF assms(1)]] l ns]) simp_all
  have "sorted_wrt (\<lambda>x y. ordinal x \<le> ordinal y) dates"
    by (rule sorted_wrt_mono_rel [OF _ s]) (auto simp: dt_less_def)
  then have "sorted (map ordinal dates)" by (simp add: sorted_wrt_map)
  with s show ?thesis by simp
qed

theorem schedule_strictly_increasing_witness:
  "valid_datetime example_now \<and>
   generate_commit_dates example_args example_now example_rng = Inr example_dates \<and>
   sorted_wrt dt_less example_dates \<and> sorted (map ordinal example_dates)"
  using schedule_strictly_increasing [OF example_valid example_schedule] example_valid
    example_schedule by blast

section \<open>Properties of the driver\<close>

text \<open>
  Claim C8, as stated, gives the name for every remote URL as the text after the last
  slash and before the last dot. A URL without a dot has no last dot:
  \<^verbatim>\<open>rfind(".")\<close> is -1 there, the slice ends one character before the end of the URL,
  and \<open>https://localhost/foo/bar\<close> gives \<open>ba\<close>, not the text \<open>bar\<close> after the last
  slash.
\<close>

theorem url_without_dot_counterexample:
  "repository (example_args\<lparr>repository := Some ''https://localhost/foo/bar''\<rparr>) =
     Some ''https://localhost/foo/bar'' \<and>
   CHR ''.'' \<notin> set ''https://localhost/foo/bar'' \<and>
   rfind ''https://localhost/foo/bar'' CHR ''/'' + 1 = 22 \<and>
   rfind ''https://localhost/foo/bar'' CHR ''.'' = - 1 \<and>
   drop 22 ''https://localhost/foo/bar'' = ''bar'' \<and>
   determine_directory (example_args\<lparr>repository := Some ''https://localhost/foo/bar''\<rparr>)
     example_now = ''ba''"
  by (simp add: determine_directory_def py_slice_def slice_index_def Let_def)

text \<open>
  Claim C8, amended. With a remote URL that contains a dot, the directory name is the
  characters of the URL from the one after its last slash (from its first character when
  it has no slash) up to, not including, its last dot; that is \<open>name\<close> for a URL made
  of a prefix that is empty or ends in a slash, a name without slash, a dot and an
  extension without slash or dot, and \<open>bar-project\<close> for the URL of the specification.
  Without a URL (none, or the empty string) it is \<open>repository-\<close> followed by the current
  time as year, month, day, hour, minute and second joined by dashes; from the year 1000
  on that is four digits and five groups of two.
\<close>

theorem determine_directory_of_dotted_url:
  assumes "repository a = Some url" and "CHR ''.'' \<in> set url"
  shows "determine_directory a now =
           between url (rfind url CHR ''/'' + 1) (rfind url CHR ''.'') \<and>
         0 \<le> rfind url CHR ''.'' \<and> rfind url CHR ''.'' < int (length url) \<and>
         url ! nat (rfind url CHR ''.'') = CHR ''.'' \<and>
         CHR ''.'' \<notin> set (drop (nat (rfind url CHR ''.'' + 1)) url) \<and>
         0 \<le> rfind url CHR ''/'' + 1 \<and> rfind url CHR ''/'' + 1 \<le> int (length url) \<and>
         CHR ''/'' \<notin> set (drop (nat (rfind url CHR ''/'' + 1)) url) \<and>
         (CHR ''/'' \<in> set url \<longrightarrow> url ! nat (rfind url CHR ''/'') = CHR ''/'') \<and>
         (CHR ''/'' \<notin> set url \<longrightarrow> rfind url CHR ''/'' + 1 = 0) \<and>
         (\<forall>pre name ext.
            url = pre @ name @ CHR ''.'' # ext \<and> (pre = [] \<or> last pre = CHR ''/'') \<and>
            CHR ''/'' \<notin> set name \<and> CHR ''/'' \<notin> set ext \<and> CHR ''.'' \<notin> set ext \<longrightarrow>
            determine_directory a now = name) \<and>
         determine_directory (a\<lparr>repository := Some ''https://example.com/foo/bar-project.git''\<rparr>) now =
           ''bar-project'' \<and>
         determine_directory (a\<lparr>repository := None\<rparr>) now =
           ''repository-'' @ fmt_Y now @ ''-'' @ fmt_m now @ ''-'' @ fmt_d now @ ''-'' @
           fmt_H now @ ''-'' @ fmt_M now @ ''-'' @ fmt_S now \<and>
         determine_directory (a\<lparr>repository := Some []\<rparr>) now =
           determine_directory (a\<lparr>repository := None\<rparr>) now \<and>
         determine_directory (a\<lparr>repository := None\<rparr>) example_now =
           ''repository-2024-03-15-10-11-12'' \<and>
         (valid_datetime now \<and> 364878 \<le> ordinal now \<longrightarrow>
            matches_pattern ''repository-####-##-##-##-##-##''
              (determine_directory (a\<lparr>repository := None\<rparr>) now))"
proof -
  let ?s = "rfind url CHR ''/'' + 1"
  let ?e = "rfind url CHR ''.''"
  from assms(2) have ne: "url \<noteq> []" by auto
  have e: "0 \<le> ?e" "?e < int (length url)"
    using assms(2) by (simp_all add: rfind_in rfind_less)
  have s: "0 \<le> ?s" "?s \<le> int (length url)"
    using rfind_less [of url "CHR ''/''"] rfind_in [of "CHR ''/''" url]
      rfind_notin [of "CHR ''/''" url]
    by (cases "CHR ''/'' \<in> set url"; simp)+
  have "determine_directory a now = py_slice url ?s ?e"
    using ne by (simp add: determine_directory_def assms(1) Let_def)
  also have "\<dots> = between url ?s ?e"
    using s(1) e by (intro py_slice_between) simp_all
  finally have 1: "determine_directory a now = between url ?s ?e" .
  have 2: "url ! nat ?e = CHR ''.''" using assms(2) by (rule rfind_nth)
  have 3: "CHR ''.'' \<notin> set (drop (nat (?e + 1)) url)" by (rule rfind_is_last)
  have 4: "CHR ''/'' \<notin> set (drop (nat ?s) url)" by (rule rfind_is_last)
  have 5: "CHR ''/'' \<in> set url \<longrightarrow> url ! nat (rfind url CHR ''/'') = CHR ''/''"
    by (simp add: rfind_nth)
  have 6: "CHR ''/'' \<notin> set url \<longrightarrow> ?s = 0" by (simp add: rfind_notin)
  have 7: "\<forall>pre name ext.
            url = pre @ name @ CHR ''.'' # ext \<and> (pre = [] \<or> last pre = CHR ''/'') \<and>
            CHR ''/'' \<notin> set name \<and> CHR ''/'' \<notin> set ext \<and> CHR ''.'' \<notin> set ext \<longrightarrow>
            determine_directory a now = name"
    using determine_directory_shape [of a _ _ _ now] assms(1) by blast
  have 8: "determine_directory (a\<lparr>repository := Some ''https://example.com/foo/bar-project.git''\<rparr>) now =
           ''bar-project''"
    by (simp add: determine_directory_def py_slice_def slice_index_def Let_def)
  have 9: "determine_directory (a\<lparr>repository := None\<rparr>) example_now =
           ''repository-2024-03-15-10-11-12''"
    unfolding default_name by (rule example_default_name)
  have 10: "valid_datetime now \<and> 364878 \<le> ordinal now \<longrightarrow>
            matches_pattern ''repository-####-##-##-##-##-##''
              (determine_directory (a\<lparr>repository := None\<rparr>) now)"
    unfolding default_name using default_name_pattern [of now] by blast
  from 1 e 2 3 s 4 5 6 7 8 9 10 default_name [of a now] show ?thesis by simp
qed

theorem determine_directory_of_dotted_url_witness:
  "repository example_args = Some ''https://example.com/foo/bar-project.git'' \<and>
   CHR ''.'' \<in> set ''https://example.com/foo/bar-project.git'' \<and>
   rfind ''https://example.com/foo/bar-project.git'' CHR ''/'' + 1 = 24 \<and>
   rfind ''https://example.com/foo/bar-project.git'' CHR ''.'' = 35 \<and>
   between ''https://example.com/foo/bar-project.git'' 24 35 = ''bar-project'' \<and>
   determine_directory example_args example_now = ''bar-project'' \<and>
   ''https://example.com/foo/bar-project.git'' =
      ''https://example.com/foo/'' @ ''bar-project'' @ CHR ''.'' # ''git'' \<and>
   last ''https://example.com/foo/'' = CHR ''/'' \<and>
   CHR ''/'' \<notin> set ''bar-project'' \<and> CHR ''/'' \<notin> set ''git'' \<and> CHR ''.'' \<notin> set ''git'' \<and>
   valid_datetime example_now \<and> 364878 \<le> ordinal example_now \<and>
   matches_pattern ''repository-####-##-##-##-##-##''
     (determine_directory (example_args\<lparr>repository := None\<rparr>) example_now)"
proof -
  have h1: "repository example_args = Some ''https://example.com/foo/bar-project.git''"
    by (simp add: example_args_def)
  have h2: "CHR ''.'' \<in> set ''https://example.com/foo/bar-project.git''" by simp
  have s: "rfind ''https://example.com/foo/bar-project.git'' CHR ''/'' + 1 = 24" by simp
  have e: "rfind ''https://example.com/foo/bar-project.git'' CHR ''.'' = 35" by simp
  have b: "between ''https://example.com/foo/bar-project.git'' 24 35 = ''bar-project''"
    by code_simp
  have u: "''https://example.com/foo/bar-project.git'' =
      ''https://example.com/foo/'' @ ''bar-project'' @ CHR ''.'' # ''git''" by simp
  have l: "last ''https://example.com/foo/'' = CHR ''/''" by simp
  have n: "CHR ''/'' \<notin> set ''bar-project''" "CHR ''/'' \<notin> set ''git''" "CHR ''.'' \<notin> set ''git''"
    by simp_all
  have h6: "364878 \<le> ordinal example_now" by (simp add: example_now_def)
  note t = determine_directory_of_dotted_url [OF h1 h2, of example_now]
  have d: "determine_directory example_args example_now = ''bar-project''"
    using t s e b by simp
  have m: "matches_pattern ''repository-####-##-##-##-##-##''
     (determine_directory (example_args\<lparr>repository := None\<rparr>) example_now)"
    using t example_valid h6 by blast
  from h1 h2 s e b d u l n example_valid h6 m show ?thesis by blast
qed

text \<open>
  Claim C9. When the target directory already exists, creating and initializing raises
  the file-exists error, and so do \<^verbatim>\<open>setup\<close> and the script; the world at that moment
  is the one the step started with: no command was run, nothing was written or printed.
\<close>

theorem existing_directory_is_fatal:
  assumes "path_exists w (directory r)"
  shows "create_and_initialize_repository r w = Inl (FileExistsError, w) \<and>
         setup_repository r w = Inl (FileExistsError, w) \<and>
         (\<forall>a now g. git_repository_init a now g = Inr r \<longrightarrow>
            script_main a now g w = Inl (FileExistsError, w))"
proof -
  from assms have "mkdir (directory r) w = Inl (FileExistsError, w)"
    by (simp add: path_exists_def mkdir_def)
  then have c: "create_and_initialize_repository r w = Inl (FileExistsError, w)"
    by (simp add: create_and_initialize_repository_def)
  then have s: "setup_repository r w = Inl (FileExistsError, w)"
    by (simp add: setup_repository_def)
  from c s show ?thesis by (simp add: script_main_def)
qed

theorem existing_directory_is_fatal_witness:
  "path_exists example_world (directory example_repo) \<and>
   git_repository_init example_args example_now example_rng = Inr example_repo \<and>
   setup_repository example_repo example_world = Inl (FileExistsError, example_world) \<and>
   script_main example_args example_now example_rng example_world =
     Inl (FileExistsError, example_world) \<and>
   commands example_world = [] \<and> printed example_world = [] \<and> readme example_world = []"
proof -
  have h: "path_exists example_world (directory example_repo)"
    by (simp add: path_exists_def example_world_def example_repo_def)
  have e: "commands example_world = [] \<and> printed example_world = [] \<and> readme example_world = []"
    by (simp add: example_world_def)
  from existing_directory_is_fatal [OF h] h example_repo_init e
  show ?thesis by blast
qed

text \<open>
  Claim C10, as stated, says that a URL with no dot after its last slash gives the empty
  name. A URL with no dot at all has \<^verbatim>\<open>rfind(".")\<close> equal to -1, and the slice then ends
  one character before the end of the URL: \<open>/srv/git/bar\<close> gives \<open>ba\<close>.
\<close>

theorem no_dot_url_counterexample:
  "repository (example_args\<lparr>repository := Some ''/srv/git/bar''\<rparr>) = Some ''/srv/git/bar'' \<and>
   CHR ''.'' \<notin> set ''/srv/git/bar'' \<and>
   rfind ''/srv/git/bar'' CHR ''/'' + 1 = 9 \<and> rfind ''/srv/git/bar'' CHR ''.'' = - 1 \<and>
   determine_directory (example_args\<lparr>repository := Some ''/srv/git/bar''\<rparr>) example_now = ''ba''"
  by (simp add: determine_directory_def py_slice_def slice_index_def Let_def)

text \<open>
  Claim C10, amended. When the URL has a dot before its last slash and none after it,
  the end of the slice is a valid index that lies before its start, and the directory
  name is empty.
\<close>

theorem dotless_last_segment_gives_empty_name:
  assumes "repository a = Some (pre @ suf)" and "last pre = CHR ''/''"
    and "CHR ''.'' \<in> set pre" and "CHR ''/'' \<notin> set suf" and "CHR ''.'' \<notin> set suf"
  shows "determine_directory a now = [] \<and>
         rfind (pre @ suf) CHR ''.'' < rfind (pre @ suf) CHR ''/'' + 1 \<and>
         0 \<le> rfind (pre @ suf) CHR ''.''"
proof -
  from assms(3) have ne: "pre \<noteq> []" by auto
  have s: "rfind (pre @ suf) CHR ''/'' + 1 = int (length pre)"
    using assms(2,4) by (intro start_after_last_slash) simp_all
  have e: "rfind (pre @ suf) CHR ''.'' = rfind pre CHR ''.''"
    using assms(5) by (rule rfind_append_notin)
  have b: "0 \<le> rfind pre CHR ''.''" "rfind pre CHR ''.'' < int (length pre)"
    using assms(3) by (simp_all add: rfind_in rfind_less)
  have "py_slice (pre @ suf) (int (length pre)) (rfind pre CHR ''.'') = []"
    using b by (intro py_slice_backwards) simp_all
  then have "determine_directory a now = []"
    using ne by (simp add: determine_directory_def assms(1) Let_def s e)
  then show ?thesis using b by (simp add: s e)
qed

theorem dotless_last_segment_gives_empty_name_witness:
  "repository (example_args\<lparr>repository := Some (''https://example.com/foo/'' @ ''bar'')\<rparr>) =
     Some (''https://example.com/foo/'' @ ''bar'') \<and>
   last ''https://example.com/foo/'' = CHR ''/'' \<and> CHR ''.'' \<in> set ''https://example.com/foo/'' \<and>
   CHR ''/'' \<notin> set ''bar'' \<and> CHR ''.'' \<notin> set ''bar'' \<and>
   determine_directory (example_args\<lparr>repository := Some (''https://example.com/foo/'' @ ''bar'')\<rparr>)
     example_now = []"
proof -
  have h1: "repository (example_args\<lparr>repository := Some (''https://example.com/foo/'' @ ''bar'')\<rparr>) =
     Some (''https://example.com/foo/'' @ ''bar'')" by simp
  have h2: "last ''https://example.com/foo/'' = CHR ''/''" by simp
  have h3: "CHR ''.'' \<in> set ''https://example.com/foo/''" by simp
  have h4: "CHR ''/'' \<notin> set ''bar''" by simp
  have h5: "CHR ''.'' \<notin> set ''bar''" by simp
  from dotless_last_segment_gives_empty_name [OF h1 h2 h3 h4 h5, of example_now] h1 h2 h3 h4 h5
  show ?thesis by blast
qed

end
